theory Spec2Isabelle
  imports Main "HOL-Library.Sublist" "HOL-Library.Multiset"
begin

section \<open>Data model of the execution engine (internal/exec/exec.go)\<close>

text \<open>
  The engine walks a flattened selection tree against a tree of reflected resolver
  values. Everything the engine obtains from other packages (the reflected values, the
  JSON encoder, the tracer, the panic handler, the resolver callables) is a parameter of
  the model; everything exec.go itself computes is defined below, function by function.
\<close>

subsection \<open>Schema types (ast.Type as far as exec.go inspects it)\<close>

datatype gtype =
    NonNull gtype
  | ListOf gtype
  | ObjectTypeDefinition string
  | InterfaceTypeDefinition string
  | UnionDefinition string
  | ScalarTypeDefinition string
  | EnumTypeDefinition string "string list"
  | InputObject string

text \<open>The \<^verbatim>\<open>String()\<close> form of a type, as used by the format verb \<^verbatim>\<open>%q\<close>.\<close>

fun typeString :: "gtype \<Rightarrow> string" where
  "typeString (NonNull t) = typeString t @ ''!''"
| "typeString (ListOf t) = ''['' @ typeString t @ '']''"
| "typeString (ObjectTypeDefinition n) = n"
| "typeString (InterfaceTypeDefinition n) = n"
| "typeString (UnionDefinition n) = n"
| "typeString (ScalarTypeDefinition n) = n"
| "typeString (EnumTypeDefinition n vs) = n"
| "typeString (InputObject n) = n"

fun unwrapNonNull :: "gtype \<Rightarrow> gtype \<times> bool" where
  "unwrapNonNull (NonNull t) = (t, True)"
| "unwrapNonNull t = (t, False)"

fun isNonNull :: "gtype \<Rightarrow> bool" where
  "isNonNull (NonNull t) = True"
| "isNonNull t = False"

subsection \<open>Reflected resolver values\<close>

text \<open>
  A \<^verbatim>\<open>reflect.Value\<close> as far as the engine looks at it: the invalid value (of a nil
  interface), a nil pointer or interface, a non-nil pointer or interface with the value
  it refers to, a slice, a Go string, a byte (what indexing a Go string gives), and any
  other host value (identified by a tag).
\<close>

datatype rvalue =
    Invalid
  | NilRef
  | Ref rvalue
  | Slice "rvalue list"
  | Str string
  | Byte char
  | Host string

datatype panic_value =
    PanicMsg string
  | CouldNotMarshal rvalue string

subsection \<open>Contexts, paths and errors\<close>

type_synonym args = "(string \<times> string) list"

datatype ctxKey = selectedFieldsKey | argumentsKey | foreignKey string

text \<open>A value kept in a context: an arguments map, or a value of another type (named by that type).\<close>

datatype ctxValue = ArgsValue args | ForeignValue string

text \<open>A context is the chain of \<^verbatim>\<open>context.WithValue\<close> nodes, innermost first.\<close>

type_synonym ctx = "(ctxKey \<times> ctxValue) list"

definition ctxLookup :: "ctx \<Rightarrow> ctxKey \<Rightarrow> ctxValue option" where
  "ctxLookup c k = map_of c k"

definition contextWithArguments :: "ctx \<Rightarrow> args \<Rightarrow> ctx" where
  "contextWithArguments c a = (argumentsKey, ArgsValue a) # c"

text \<open>
  \<^verbatim>\<open>ctx.Value(argumentsKey).(map[string]interface{})\<close>: the unchecked type assertion
  panics when the key is absent (the value is then the nil interface) or holds
  something that is not a map.
\<close>

definition ArgsFromContext :: "ctx \<Rightarrow> panic_value + args" where
  "ArgsFromContext c =
     (case ctxLookup c argumentsKey of
        Some (ArgsValue a) \<Rightarrow> Inr a
      | Some (ForeignValue v) \<Rightarrow>
          Inl (PanicMsg (''interface conversion: interface {} is '' @ v @ '', not map[string]interface {}''))
      | None \<Rightarrow> Inl (PanicMsg ''interface conversion: interface {} is nil, not map[string]interface {}''))"

text \<open>graphql.go: \<^verbatim>\<open>ArgumentsFromContext\<close> only forwards.\<close>

definition ArgumentsFromContext :: "ctx \<Rightarrow> panic_value + args" where
  "ArgumentsFromContext c = ArgsFromContext c"

datatype path_value = Key string | Index nat

datatype pathSegment = PathSegment "pathSegment option" path_value

fun toSlice :: "pathSegment option \<Rightarrow> path_value list" where
  "toSlice None = []"
| "toSlice (Some (PathSegment parent v)) = toSlice parent @ [v]"

datatype resolver_error = ResolverError string "args option"

fun errorText :: "resolver_error \<Rightarrow> string" where
  "errorText (ResolverError m ex) = m"

fun extensionsOf :: "resolver_error \<Rightarrow> args option" where
  "extensionsOf (ResolverError m ex) = ex"

record query_error =
  Message :: string
  Path :: "path_value list"
  ResolverErr :: "resolver_error option"
  Extensions :: "args option"

definition Errorf :: "string \<Rightarrow> query_error" where
  "Errorf m = \<lparr>Message = m, Path = [], ResolverErr = None, Extensions = None\<rparr>"

subsection \<open>The world outside the engine, and the request\<close>

text \<open>
  Resolvers are arbitrary user code: they read and change a world, which holds what
  \<^verbatim>\<open>ctx.Err()\<close> returns (a resolver, or time passing while it runs, may cancel the
  request's context) and any user state.
\<close>

record 'u world =
  CtxErr :: "string option"
  User :: 'u

datatype resolve_result = Returns rvalue "resolver_error option" | Panics panic_value

datatype method_result = MethodReturns rvalue bool | MethodPanics panic_value

datatype span_event =
    FieldStart string string string bool args
  | FieldFinish "query_error option"

text \<open>The mutable part of a request: the error list, and what the logger and tracer saw.\<close>

record 'u state =
  Errs :: "query_error list"
  Logged :: "panic_value list"
  Spans :: "span_event list"
  World :: "'u world"

text \<open>
  The fixed part of a request and of its host: the limiter's capacity, the panic
  handler, the tracer (the context it hands back), \<^verbatim>\<open>json.Marshal\<close>, the string form
  of a value, reflective method calls, the order in which a \<^verbatim>\<open>range\<close> over a map
  visits its entries, and the order in which the goroutines spawned for one selection
  set or one list run.
\<close>

record request =
  Limiter :: nat
  PanicHandler :: "ctx \<Rightarrow> panic_value \<Rightarrow> query_error"
  Tracer :: "ctx \<Rightarrow> string \<Rightarrow> string \<Rightarrow> string \<Rightarrow> bool \<Rightarrow> args \<Rightarrow> ctx"
  Marshal :: "rvalue \<Rightarrow> string + string"
  StringOf :: "rvalue \<Rightarrow> string"
  Method :: "rvalue \<Rightarrow> nat \<Rightarrow> method_result"
  MapOrder :: "(string \<times> nat) list \<Rightarrow> nat list"
  Sched :: "path_value list \<Rightarrow> nat \<Rightarrow> nat list"

definition AddError :: "query_error \<Rightarrow> 'u state \<Rightarrow> 'u state" where
  "AddError e st = st\<lparr>Errs := Errs st @ [e]\<rparr>"

text \<open>\<^verbatim>\<open>Request.handlePanic\<close>, at a recovered panic value.\<close>

definition handlePanic :: "request \<Rightarrow> ctx \<Rightarrow> panic_value \<Rightarrow> 'u state \<Rightarrow> 'u state" where
  "handlePanic r c v st = AddError (PanicHandler r c v) (st\<lparr>Logged := Logged st @ [v]\<rparr>)"

text \<open>
  An oracle's answer is used when it is an ordering of \<open>0 ..< n\<close>; otherwise the
  entries are taken in index order.
\<close>

definition validOrder :: "nat list \<Rightarrow> nat \<Rightarrow> nat list" where
  "validOrder ord n = (if sort ord = [0..<n] then ord else [0..<n])"

subsection \<open>Selections\<close>

record 'u schema_field =
  Name :: string
  Alias :: string
  TypeName :: string
  TraceLabel :: string
  Type :: gtype
  Async :: bool
  Args :: args
  FixedResult :: rvalue
  Resolve :: "ctx \<Rightarrow> rvalue \<Rightarrow> 'u world \<Rightarrow> resolve_result \<times> 'u world"

datatype 'u selection =
    SchemaField "'u schema_field" "'u selection list"
  | TypenameField string string "(string \<times> nat) list"
  | TypeAssertion nat "'u selection list"

record 'u schema =
  FieldTypename :: "'u schema_field"
  QueryResolver :: rvalue
  MutationResolver :: rvalue
  SubscriptionResolver :: rvalue

record 'u fieldToExec =
  field :: "'u schema_field"
  sels :: "'u selection list"
  resolver :: rvalue
  out :: string

text \<open>
  Modelled from the spec: \<^verbatim>\<open>selected.HasAsyncSel\<close> is not part of the sources. A
  selection list is asynchronous when one of its fields is marked so, looking through
  type assertions.
\<close>

fun HasAsyncSel :: "'u selection list \<Rightarrow> bool" where
  "HasAsyncSel [] = False"
| "HasAsyncSel (SchemaField f ss # rest) = (Async f \<or> HasAsyncSel rest)"
| "HasAsyncSel (TypenameField a n tas # rest) = HasAsyncSel rest"
| "HasAsyncSel (TypeAssertion i ss # rest) = (HasAsyncSel ss \<or> HasAsyncSel rest)"

definition resolvedToNull :: "string \<Rightarrow> bool" where
  "resolvedToNull b = (b = ''null'')"

section \<open>Collecting the fields of a selection set\<close>

text \<open>
  \<^verbatim>\<open>typeOf\<close>: with no type assertion the static name; otherwise the name of the first
  assertion, in the order the map is ranged over, whose method reports a match; the
  empty string when none does.
\<close>

definition mapRange :: "request \<Rightarrow> (string \<times> nat) list \<Rightarrow> (string \<times> nat) list" where
  "mapRange r tas = map (\<lambda>i. tas ! i) (validOrder (MapOrder r tas) (length tas))"

fun firstMatch :: "request \<Rightarrow> rvalue \<Rightarrow> (string \<times> nat) list \<Rightarrow> panic_value + string" where
  "firstMatch r res [] = Inr ''''"
| "firstMatch r res ((name, a) # rest) =
     (case Method r res a of
        MethodPanics pv \<Rightarrow> Inl pv
      | MethodReturns v ok \<Rightarrow> if ok then Inr name else firstMatch r res rest)"

definition typeOf :: "request \<Rightarrow> string \<Rightarrow> (string \<times> nat) list \<Rightarrow> rvalue \<Rightarrow> panic_value + string" where
  "typeOf r name tas res =
     (if length tas = 0 then Inr name else firstMatch r res (mapRange r tas))"

text \<open>
  \<^verbatim>\<open>collectFieldsToResolve\<close>. The Go code keeps the fields as pointers, in a slice and
  in a map by alias; here the map holds the position of the field in the list, so that
  an update through the map is an update of the list entry. A panic of a reflective
  method call leaves the function (\<open>Inl\<close>).
\<close>

definition typenameField :: "'u schema \<Rightarrow> string \<Rightarrow> string \<Rightarrow> 'u schema_field" where
  "typenameField s alias res =
     (FieldTypename s)\<lparr>TypeName := res, Alias := alias, FixedResult := Str res\<rparr>"

function collectFieldsToResolve ::
  "request \<Rightarrow> 'u selection list \<Rightarrow> 'u schema \<Rightarrow> rvalue \<Rightarrow>
   'u fieldToExec list \<times> (string \<rightharpoonup> nat) \<Rightarrow>
   panic_value + 'u fieldToExec list \<times> (string \<rightharpoonup> nat)" where
  "collectFieldsToResolve r [] s res acc = Inr acc"
| "collectFieldsToResolve r (SchemaField sel ss # rest) s res (fs, fieldByAlias) =
     (case fieldByAlias (Alias sel) of
        None \<Rightarrow>
          collectFieldsToResolve r rest s res
            (fs @ [\<lparr>field = sel, sels = ss, resolver = res, out = ''''\<rparr>],
             fieldByAlias(Alias sel \<mapsto> length fs))
      | Some i \<Rightarrow>
          collectFieldsToResolve r rest s res
            (fs[i := (fs ! i)\<lparr>sels := sels (fs ! i) @ ss\<rparr>], fieldByAlias))"
| "collectFieldsToResolve r (TypenameField alias name tas # rest) s res (fs, fieldByAlias) =
     (case fieldByAlias alias of
        Some i \<Rightarrow> collectFieldsToResolve r rest s res (fs, fieldByAlias)
      | None \<Rightarrow>
          (case typeOf r name tas res of
             Inl pv \<Rightarrow> Inl pv
           | Inr tn \<Rightarrow>
               collectFieldsToResolve r rest s res
                 (fs @ [\<lparr>field = typenameField s alias tn, sels = [], resolver = res, out = ''''\<rparr>],
                  fieldByAlias(alias \<mapsto> length fs))))"
| "collectFieldsToResolve r (TypeAssertion mi ss # rest) s res acc =
     (case Method r res mi of
        MethodPanics pv \<Rightarrow> Inl pv
      | MethodReturns v ok \<Rightarrow>
          if \<not> ok then collectFieldsToResolve r rest s res acc
          else (case collectFieldsToResolve r ss s v acc of
                  Inl pv \<Rightarrow> Inl pv
                | Inr acc' \<Rightarrow> collectFieldsToResolve r rest s res acc'))"
  by pat_completeness auto
termination
  by (relation "measure (\<lambda>(r, ss, s, res, acc). size_list size ss)") auto

section \<open>Writing an object and a list\<close>

text \<open>
  The loops that assemble the output of \<^verbatim>\<open>execSelections\<close> (from the opening brace
  on) and of \<^verbatim>\<open>execList\<close> (from the opening bracket on). \<open>buf\<close> is the content of
  the output buffer so far; an early return has reset it and written \<^verbatim>\<open>null\<close>.
\<close>

fun writeFieldsFrom :: "nat \<Rightarrow> 'u fieldToExec list \<Rightarrow> string \<Rightarrow> string" where
  "writeFieldsFrom i [] buf = buf @ ''}''"
| "writeFieldsFrom i (f # fs) buf =
     (if isNonNull (Type (field f)) \<and> resolvedToNull (out f) then ''null''
      else writeFieldsFrom (Suc i) fs
             ((if i > 0 then buf @ '','' else buf) @ [CHR 0x22] @ Alias (field f) @ [CHR 0x22] @ '':'' @ out f))"

definition writeFields :: "'u fieldToExec list \<Rightarrow> string \<Rightarrow> string" where
  "writeFields fs buf = writeFieldsFrom 0 fs (buf @ ''{'')"

fun writeEntriesFrom :: "bool \<Rightarrow> nat \<Rightarrow> string list \<Rightarrow> string \<Rightarrow> string" where
  "writeEntriesFrom listOfNonNull i [] buf = buf @ '']''"
| "writeEntriesFrom listOfNonNull i (e # es) buf =
     (if listOfNonNull \<and> resolvedToNull e then ''null''
      else writeEntriesFrom listOfNonNull (Suc i) es ((if i > 0 then buf @ '','' else buf) @ e))"

definition writeEntries :: "gtype \<Rightarrow> string list \<Rightarrow> string \<Rightarrow> string" where
  "writeEntries ofType entryouts buf = writeEntriesFrom (isNonNull ofType) 0 entryouts (buf @ ''['')"

section \<open>Executing a field\<close>

text \<open>
  How a call of the engine ends: it returns, a panic leaves it, or it blocks for ever
  (a send on a channel of capacity 0 that nobody receives from). With \<open>Hang\<close> the
  buffer and the state that come with it mean nothing.
\<close>

datatype status = Normal | Panic panic_value | Hang

definition resolve :: "'u fieldToExec \<Rightarrow> ctx \<Rightarrow> 'u world \<Rightarrow> resolve_result \<times> 'u world" where
  "resolve f c w = Resolve (field f) c (resolver f) w"

definition resolverQueryError :: "resolver_error \<Rightarrow> pathSegment option \<Rightarrow> query_error" where
  "resolverQueryError re path =
     (Errorf (errorText re))\<lparr>Path := toSlice path, ResolverErr := Some re, Extensions := extensionsOf re\<rparr>"

text \<open>
  The closure of \<^verbatim>\<open>execFieldSelection\<close> that calls the resolver, together with its
  deferred recovery. It gives the tracing context (with the arguments once the resolver
  has returned), the result and the error.
\<close>

definition resolveField ::
  "request \<Rightarrow> ctx \<Rightarrow> ctx \<Rightarrow> 'u fieldToExec \<Rightarrow> pathSegment option \<Rightarrow> 'u state \<Rightarrow>
   ctx \<times> rvalue \<times> query_error option \<times> 'u state" where
  "resolveField r c traceCtx f path st =
     (if FixedResult (field f) \<noteq> Invalid then (traceCtx, FixedResult (field f), None, st)
      else (case CtxErr (World st) of
         Some e \<Rightarrow> (traceCtx, Invalid, Some (Errorf e), st)
       | None \<Rightarrow>
          (case resolve f c (World st) of
             (Panics pv, w) \<Rightarrow>
               (traceCtx, Invalid, Some ((PanicHandler r c pv)\<lparr>Path := toSlice path\<rparr>),
                st\<lparr>Logged := Logged st @ [pv], World := w\<rparr>)
           | (Returns res resolverErr, w) \<Rightarrow>
               (case resolverErr of
                  Some re \<Rightarrow>
                    (if length (Args (field f)) \<noteq> 0 then contextWithArguments traceCtx (Args (field f)) else traceCtx,
                     Invalid, Some (resolverQueryError re path), st\<lparr>World := w\<rparr>)
                | None \<Rightarrow>
                    (if length (Args (field f)) \<noteq> 0 then contextWithArguments traceCtx (Args (field f)) else traceCtx,
                     res, None, st\<lparr>World := w\<rparr>)))))"

definition traceField :: "request \<Rightarrow> ctx \<Rightarrow> 'u schema_field \<Rightarrow> ctx" where
  "traceField r c fld = Tracer r c (TraceLabel fld) (TypeName fld) (Name fld) (\<not> Async fld) (Args fld)"

definition startSpan :: "'u schema_field \<Rightarrow> 'u state \<Rightarrow> 'u state" where
  "startSpan fld st =
     st\<lparr>Spans := Spans st @ [FieldStart (TraceLabel fld) (TypeName fld) (Name fld) (\<not> Async fld) (Args fld)]\<rparr>"

definition finish :: "query_error option \<Rightarrow> 'u state \<Rightarrow> 'u state" where
  "finish err st = st\<lparr>Spans := Spans st @ [FieldFinish err]\<rparr>"

definition elemOf :: "rvalue \<Rightarrow> rvalue" where
  "elemOf res = (case res of Ref v \<Rightarrow> v | _ \<Rightarrow> res)"

text \<open>
  \<^verbatim>\<open>resolver.Len()\<close> and \<^verbatim>\<open>resolver.Index(i)\<close> in \<^verbatim>\<open>execList\<close>: a slice gives its
  elements and a Go string its bytes; on a value of another kind \<^verbatim>\<open>Len\<close> panics.
\<close>

definition listValues :: "rvalue \<Rightarrow> panic_value + rvalue list" where
  "listValues res =
     (case res of
        Slice vs \<Rightarrow> Inr vs
      | Str x \<Rightarrow> Inr (map Byte x)
      | Invalid \<Rightarrow> Inl (PanicMsg ''reflect: call of reflect.Value.Len on zero Value'')
      | NilRef \<Rightarrow> Inl (PanicMsg ''reflect: call of reflect.Value.Len on ptr Value'')
      | Ref v \<Rightarrow> Inl (PanicMsg ''reflect: call of reflect.Value.Len on ptr Value'')
      | Byte x \<Rightarrow> Inl (PanicMsg ''reflect: call of reflect.Value.Len on uint8 Value'')
      | Host x \<Rightarrow> Inl (PanicMsg ''reflect: call of reflect.Value.Len on struct Value''))"

definition gotNil :: "gtype \<Rightarrow> pathSegment option \<Rightarrow> query_error" where
  "gotNil t path =
     (Errorf (''graphql: got nil for non-null '' @ [CHR 0x22] @ typeString t @ [CHR 0x22]))\<lparr>Path := toSlice path\<rparr>"

definition invalidEnum :: "string \<Rightarrow> string \<Rightarrow> pathSegment option \<Rightarrow> query_error" where
  "invalidEnum name tname path =
     (Errorf (''Invalid value '' @ name @ ''.'' @ [CHR 0x0A] @ ''Expected type '' @ tname @ '', found '' @ name @ ''.''))
       \<lparr>Path := toSlice path\<rparr>"

text \<open>
  The goroutines of one list are started in index order, each after a send on a
  semaphore of the limiter's capacity, which a goroutine gives back when it ends: the
  goroutine that is the \<open>k\<close>-th to run has an index below \<open>k + capacity\<close>.
\<close>

definition validListOrder :: "nat list \<Rightarrow> nat \<Rightarrow> nat \<Rightarrow> nat list" where
  "validListOrder ord n cap =
     (if sort ord = [0..<n] \<and> list_all (\<lambda>(k, i). i < k + cap) (zip [0..<n] ord) then ord else [0..<n])"

definition fieldsWeight :: "'u fieldToExec list \<Rightarrow> nat" where
  "fieldsWeight fs = size_list (\<lambda>f. size_list size (sels f)) fs"

text \<open>The measure of the recursion: the selections still to execute weigh less than the selection set they were collected from.\<close>

lemma fieldsWeight_update:
  "fieldsWeight (fs[i := (fs ! i)\<lparr>sels := sels (fs ! i) @ ss\<rparr>]) \<le> fieldsWeight fs + size_list size ss"
  unfolding fieldsWeight_def
proof (induction fs arbitrary: i)
  case Nil
  then show ?case by simp
next
  case (Cons f fs)
  then show ?case by (cases i) (auto simp: le_SucI add.commute trans_le_add2)
qed

lemma fieldsWeight_out:
  "i < length fs \<Longrightarrow> fieldsWeight (fs[i := (fs ! i)\<lparr>out := b\<rparr>]) = fieldsWeight fs"
  unfolding fieldsWeight_def
proof (induction fs arbitrary: i)
  case Nil
  then show ?case by simp
next
  case (Cons f fs)
  then show ?case by (cases i) auto
qed

lemma fieldsWeight_nth:
  "i < length fs \<Longrightarrow> Suc (size_list size (sels (fs ! i))) \<le> fieldsWeight fs"
  unfolding fieldsWeight_def
proof (induction fs arbitrary: i)
  case Nil
  then show ?case by simp
next
  case (Cons f fs)
  show ?case
  proof (cases i)
    case 0
    then show ?thesis by simp
  next
    case (Suc j)
    with Cons.prems have "j < length fs" by simp
    from Cons.IH[OF this] show ?thesis using Suc by simp
  qed
qed

lemma collect_weight:
  "collectFieldsToResolve r ss s res acc = Inr acc' \<Longrightarrow>
   fieldsWeight (fst acc') \<le> fieldsWeight (fst acc) + size_list size ss"
proof (induction r ss s res acc arbitrary: acc' rule: collectFieldsToResolve.induct)
  case (1 r s res acc)
  then show ?case by simp
next
  case (2 r sel ss rest s res fs fieldByAlias)
  show ?case
  proof (cases "fieldByAlias (Alias sel)")
    case None
    with 2 show ?thesis by (fastforce simp: fieldsWeight_def)
  next
    case (Some i)
    with 2 have "fieldsWeight (fst acc') \<le>
        fieldsWeight (fs[i := (fs ! i)\<lparr>sels := sels (fs ! i) @ ss\<rparr>]) + size_list size rest"
      by fastforce
    with fieldsWeight_update[of fs i ss] show ?thesis by simp
  qed
next
  case (3 r al name tas rest s res fs fieldByAlias)
  show ?case
  proof (cases "fieldByAlias al")
    case None
    show ?thesis
    proof (cases "typeOf r name tas res")
      case (Inl pv)
      with None 3(3) show ?thesis by simp
    next
      case (Inr tn)
      with None 3(3) 3(1)[OF None Inr, of acc'] show ?thesis
        by (simp add: fieldsWeight_def)
    qed
  next
    case (Some i)
    with 3(3) 3(2)[OF Some, of acc'] show ?thesis by simp
  qed
next
  case (4 r mi ss rest s res acc)
  show ?case
  proof (cases "Method r res mi")
    case (MethodPanics pv)
    with 4(4) show ?thesis by simp
  next
    case (MethodReturns v ok)
    show ?thesis
    proof (cases ok)
      case False
      with MethodReturns 4(4) 4(1)[OF MethodReturns, of acc'] show ?thesis by simp
    next
      case True
      show ?thesis
      proof (cases "collectFieldsToResolve r ss s v acc")
        case (Inl pv)
        with MethodReturns True 4(4) show ?thesis by simp
      next
        case (Inr acc1)
        from MethodReturns True have nn: "\<not> \<not> ok" by simp
        from 4(2)[OF MethodReturns nn Inr]
        have a: "fieldsWeight (fst acc1) \<le> fieldsWeight (fst acc) + size_list size ss" .
        from MethodReturns True Inr 4(4)
        have "collectFieldsToResolve r rest s res acc1 = Inr acc'" by simp
        from 4(3)[OF MethodReturns nn Inr this]
        have "fieldsWeight (fst acc') \<le> fieldsWeight (fst acc1) + size_list size rest" .
        with a show ?thesis by simp
      qed
    qed
  qed
qed



lemma unwrapNonNull_size: "unwrapNonNull ty = (t, nn) \<Longrightarrow> size t \<le> size ty"
  by (cases ty) auto

function
  execSelections ::
    "request \<Rightarrow> ctx \<Rightarrow> 'u selection list \<Rightarrow> pathSegment option \<Rightarrow> 'u schema \<Rightarrow> rvalue \<Rightarrow>
     string \<Rightarrow> bool \<Rightarrow> 'u state \<Rightarrow> status \<times> string \<times> 'u state"
and goFields ::
    "request \<Rightarrow> ctx \<Rightarrow> 'u schema \<Rightarrow> pathSegment option \<Rightarrow> nat list \<Rightarrow> 'u fieldToExec list \<Rightarrow>
     'u state \<Rightarrow> status \<times> 'u fieldToExec list \<times> 'u state"
and serialFields ::
    "request \<Rightarrow> ctx \<Rightarrow> 'u schema \<Rightarrow> pathSegment option \<Rightarrow> 'u fieldToExec list \<Rightarrow>
     'u state \<Rightarrow> status \<times> 'u fieldToExec list \<times> 'u state"
and execFieldSelection ::
    "request \<Rightarrow> ctx \<Rightarrow> 'u schema \<Rightarrow> 'u fieldToExec \<Rightarrow> pathSegment option \<Rightarrow> bool \<Rightarrow>
     'u state \<Rightarrow> status \<times> string \<times> 'u state"
and execSelectionSet ::
    "request \<Rightarrow> ctx \<Rightarrow> 'u selection list \<Rightarrow> gtype \<Rightarrow> pathSegment option \<Rightarrow> 'u schema \<Rightarrow> rvalue \<Rightarrow>
     string \<Rightarrow> 'u state \<Rightarrow> status \<times> string \<times> 'u state"
and execList ::
    "request \<Rightarrow> ctx \<Rightarrow> 'u selection list \<Rightarrow> gtype \<Rightarrow> pathSegment option \<Rightarrow> 'u schema \<Rightarrow> rvalue \<Rightarrow>
     string \<Rightarrow> 'u state \<Rightarrow> status \<times> string \<times> 'u state"
and goEntries ::
    "request \<Rightarrow> ctx \<Rightarrow> 'u selection list \<Rightarrow> gtype \<Rightarrow> pathSegment option \<Rightarrow> 'u schema \<Rightarrow>
     rvalue list \<Rightarrow> nat list \<Rightarrow> string list \<Rightarrow> 'u state \<Rightarrow> status \<times> string list \<times> 'u state"
and serialEntries ::
    "request \<Rightarrow> ctx \<Rightarrow> 'u selection list \<Rightarrow> gtype \<Rightarrow> pathSegment option \<Rightarrow> 'u schema \<Rightarrow>
     nat \<Rightarrow> rvalue list \<Rightarrow> 'u state \<Rightarrow> status \<times> string list \<times> 'u state"
where
  "execSelections r c ss path s res buf serially st =
     (case collectFieldsToResolve r ss s res ([], Map.empty) of
        Inl pv \<Rightarrow> (Panic pv, buf, st)
      | Inr (fs, fieldByAlias) \<Rightarrow>
          (if \<not> serially \<and> HasAsyncSel ss then
             (case goFields r c s path (validOrder (Sched r (toSlice path) (length fs)) (length fs)) fs st of
                (Normal, fs', st') \<Rightarrow> (Normal, writeFields fs' buf, st')
              | (Panic pv, fs', st') \<Rightarrow> (Panic pv, buf, st')
              | (Hang, fs', st') \<Rightarrow> (Hang, buf, st'))
           else
             (case serialFields r c s path fs st of
                (Normal, fs', st') \<Rightarrow> (Normal, writeFields fs' buf, st')
              | (Panic pv, fs', st') \<Rightarrow> (Panic pv, buf, st')
              | (Hang, fs', st') \<Rightarrow> (Hang, buf, st'))))"
| "goFields r c s path ord fs st =
     (case ord of
        [] \<Rightarrow> (Normal, fs, st)
      | i # rest \<Rightarrow>
          (if i < length fs then
             (case execFieldSelection r c s ((fs ! i)\<lparr>out := ''''\<rparr>)
                     (Some (PathSegment path (Key (Alias (field (fs ! i)))))) True st of
                (Normal, b, st') \<Rightarrow> goFields r c s path rest (fs[i := (fs ! i)\<lparr>out := b\<rparr>]) st'
              | (Panic pv, b, st') \<Rightarrow>
                  goFields r c s path rest (fs[i := (fs ! i)\<lparr>out := b\<rparr>]) (handlePanic r c pv st')
              | (Hang, b, st') \<Rightarrow> (Hang, fs[i := (fs ! i)\<lparr>out := b\<rparr>], st'))
           else goFields r c s path rest fs st))"
| "serialFields r c s path fs st =
     (case fs of
        [] \<Rightarrow> (Normal, [], st)
      | f # rest \<Rightarrow>
          (case execFieldSelection r c s (f\<lparr>out := ''''\<rparr>)
                  (Some (PathSegment path (Key (Alias (field f))))) True st of
             (Normal, b, st') \<Rightarrow>
               (case serialFields r c s path rest st' of
                  (stat, fs', st'') \<Rightarrow> (stat, f\<lparr>out := b\<rparr> # fs', st''))
           | (Panic pv, b, st') \<Rightarrow> (Panic pv, f\<lparr>out := b\<rparr> # rest, st')
           | (Hang, b, st') \<Rightarrow> (Hang, f\<lparr>out := b\<rparr> # rest, st')))"
| "execFieldSelection r c s f path applyLimiter st =
     (if applyLimiter \<and> Limiter r = 0 then (Hang, out f, st)
      else
        (case resolveField r c (traceField r c (field f)) f path (startSpan (field f) st) of
           (traceCtx, result, Some err, st') \<Rightarrow>
             (Normal, out f @ ''null'', finish (Some err) (AddError err st'))
         | (traceCtx, result, None, st') \<Rightarrow>
             (case execSelectionSet r traceCtx (sels f) (Type (field f)) path s result (out f) st' of
                (stat, b, st'') \<Rightarrow> (stat, b, finish None st''))))"
| "execSelectionSet r c ss typ path s res buf st =
     (case unwrapNonNull typ of
        (t, nonNull) \<Rightarrow>
          (if res = Invalid \<or> res = NilRef then
             (Normal, buf @ ''null'', if nonNull then AddError (gotNil t path) st else st)
           else
             (case t of
                ObjectTypeDefinition n \<Rightarrow> execSelections r c ss path s res buf False st
              | InterfaceTypeDefinition n \<Rightarrow> execSelections r c ss path s res buf False st
              | UnionDefinition n \<Rightarrow> execSelections r c ss path s res buf False st
              | ListOf ofType \<Rightarrow> execList r c ss ofType path s (elemOf res) buf st
              | ScalarTypeDefinition n \<Rightarrow>
                  (case Marshal r (elemOf res) of
                     Inl err \<Rightarrow> (Panic (CouldNotMarshal (elemOf res) err), buf, st)
                   | Inr data \<Rightarrow> (Normal, buf @ data, st))
              | EnumTypeDefinition n values \<Rightarrow>
                  (if StringOf r (elemOf res) \<in> set values
                   then (Normal, buf @ [CHR 0x22] @ StringOf r (elemOf res) @ [CHR 0x22], st)
                   else (Normal, buf @ ''null'', AddError (invalidEnum (StringOf r (elemOf res)) n path) st))
              | NonNull t' \<Rightarrow> (Panic (PanicMsg ''unreachable''), buf, st)
              | InputObject n \<Rightarrow> (Panic (PanicMsg ''unreachable''), buf, st))))"
| "execList r c ss ofType path s res buf st =
     (case listValues res of
        Inr vs \<Rightarrow>
          (if HasAsyncSel ss then
             (if 0 < length vs \<and> Limiter r = 0 then (Hang, buf, st)
              else
                (case goEntries r c ss ofType path s vs
                        (validListOrder (Sched r (toSlice path) (length vs)) (length vs) (Limiter r))
                        (replicate (length vs) '''') st of
                   (Normal, entryouts, st') \<Rightarrow> (Normal, writeEntries ofType entryouts buf, st')
                 | (Panic pv, entryouts, st') \<Rightarrow> (Panic pv, buf, st')
                 | (Hang, entryouts, st') \<Rightarrow> (Hang, buf, st')))
           else
             (case serialEntries r c ss ofType path s 0 vs st of
                (Normal, entryouts, st') \<Rightarrow> (Normal, writeEntries ofType entryouts buf, st')
              | (Panic pv, entryouts, st') \<Rightarrow> (Panic pv, buf, st')
              | (Hang, entryouts, st') \<Rightarrow> (Hang, buf, st')))
      | Inl pv \<Rightarrow> (Panic pv, buf, st))"
| "goEntries r c ss ofType path s vs ord entryouts st =
     (case ord of
        [] \<Rightarrow> (Normal, entryouts, st)
      | i # rest \<Rightarrow>
          (if i < length vs then
             (case execSelectionSet r c ss ofType (Some (PathSegment path (Index i))) s (vs ! i)
                     (entryouts ! i) st of
                (Normal, b, st') \<Rightarrow> goEntries r c ss ofType path s vs rest (entryouts[i := b]) st'
              | (Panic pv, b, st') \<Rightarrow>
                  goEntries r c ss ofType path s vs rest (entryouts[i := b]) (handlePanic r c pv st')
              | (Hang, b, st') \<Rightarrow> (Hang, entryouts[i := b], st'))
           else goEntries r c ss ofType path s vs rest entryouts st))"
| "serialEntries r c ss ofType path s i vs st =
     (case vs of
        [] \<Rightarrow> (Normal, [], st)
      | v # rest \<Rightarrow>
          (case execSelectionSet r c ss ofType (Some (PathSegment path (Index i))) s v '''' st of
             (Normal, b, st') \<Rightarrow>
               (case serialEntries r c ss ofType path s (Suc i) rest st' of
                  (stat, bs, st'') \<Rightarrow> (stat, b # bs, st''))
           | (Panic pv, b, st') \<Rightarrow> (Panic pv, [b], st')
           | (Hang, b, st') \<Rightarrow> (Hang, [b], st')))"
  by pat_completeness auto
termination execSelections
proof (relation "inv_image (less_than <*lex*> less_than <*lex*> less_than)
   (case_sum
     (case_sum
       (case_sum
         (\<lambda>(r, c, ss, path, s, res, buf, serially, st). (size_list size ss, Suc 0, 0))
         (\<lambda>(r, c, s, path, ord, fs, st). (fieldsWeight fs, 0, Suc (length ord))))
       (case_sum
         (\<lambda>(r, c, s, path, fs, st). (fieldsWeight fs, 0, Suc (length fs)))
         (\<lambda>(r, c, s, f, path, applyLimiter, st). (Suc (size_list size (sels f)), 0, 0))))
     (case_sum
       (case_sum
         (\<lambda>(r, c, ss, typ, path, s, res, buf, st). (size_list size ss, 2 * size typ + 3, Suc 0))
         (\<lambda>(r, c, ss, ofType, path, s, res, buf, st). (size_list size ss, 2 * size ofType + 5, 0)))
       (case_sum
         (\<lambda>(r, c, ss, ofType, path, s, vs, ord, entryouts, st). (size_list size ss, 2 * size ofType + 4, length ord))
         (\<lambda>(r, c, ss, ofType, path, s, i, vs, st). (size_list size ss, 2 * size ofType + 4, length vs)))))",
   goal_cases)
  case 1
  show ?case by (intro wf_inv_image wf_lex_prod wf_less_than)
next
  case (2 r c ss path s res buf serially st b x y)
  then show ?case using collect_weight[of r ss s res "([], Map.empty)" b]
    by (auto simp: fieldsWeight_def)
next
  case (3 r c ss path s res buf serially st b x y)
  then show ?case using collect_weight[of r ss s res "([], Map.empty)" b]
    by (auto simp: fieldsWeight_def)
next
  case (4 r c s path ord fs st i rest)
  then show ?case using fieldsWeight_nth[of i fs] by auto
next
  case (5 r c s path ord fs st i rest)
  then show ?case by (simp add: fieldsWeight_out)
next
  case (6 r c s path ord fs st i rest)
  then show ?case by (simp add: fieldsWeight_out)
next
  case (7 r c s path ord fs st i rest)
  then show ?case by simp
next
  case (8 r c s path fs st f rest)
  then show ?case by (auto simp: fieldsWeight_def)
next
  case (9 r c s path fs st f rest)
  then show ?case by (auto simp: fieldsWeight_def)
next
  case (10 r c s f path applyLimiter st)
  then show ?case by simp
next
  case (11 r c ss ty path s res buf st t nn ofType)
  then have "unwrapNonNull ty = (t, nn)" by simp
  then have "size t \<le> size ty" by (rule unwrapNonNull_size)
  with 11 show ?case by auto
qed auto

declare execSelections.simps [simp del] goFields.simps [simp del] serialFields.simps [simp del]
  execFieldSelection.simps [simp del] execSelectionSet.simps [simp del] execList.simps [simp del]
  goEntries.simps [simp del] serialEntries.simps [simp del]

section \<open>The entry point\<close>

datatype OperationType = Query | Mutation | Subscription | OtherOperation string

definition rootResolver :: "'u schema \<Rightarrow> OperationType \<Rightarrow> rvalue option" where
  "rootResolver s t =
     (case t of
        Query \<Rightarrow> Some (QueryResolver s)
      | Mutation \<Rightarrow> Some (MutationResolver s)
      | Subscription \<Rightarrow> Some (SubscriptionResolver s)
      | OtherOperation x \<Rightarrow> None)"

text \<open>
  The body of \<^verbatim>\<open>Request.Execute\<close> that runs under the deferred \<^verbatim>\<open>handlePanic\<close>.
  The selections that \<^verbatim>\<open>selected.ApplyOperation\<close> gives (or the panic it ends in) and
  the function \<^verbatim>\<open>validateSelections\<close> are parameters: neither is part of the sources.
\<close>

definition executeBody ::
  "request \<Rightarrow> ctx \<Rightarrow> 'u schema \<Rightarrow> OperationType \<Rightarrow> panic_value + 'u selection list \<Rightarrow>
   ('u selection list \<Rightarrow> query_error list option) \<Rightarrow> 'u state \<Rightarrow> status \<times> string \<times> 'u state" where
  "executeBody r c s opType ApplyOperation validateSelections st =
     (case ApplyOperation of
        Inl pv \<Rightarrow> (Panic pv, '''', st)
      | Inr ss \<Rightarrow>
          (case rootResolver s opType of
             None \<Rightarrow> (Panic (PanicMsg ''unknown query operation''), '''', st)
           | Some res \<Rightarrow>
               (case validateSelections ss of
                  Some errs \<Rightarrow> (Normal, ''null'', st\<lparr>Errs := errs\<rparr>)
                | None \<Rightarrow> execSelections r c ss None s res '''' (opType = Mutation) st)))"

text \<open>
  What \<^verbatim>\<open>Execute\<close> returns once its body is over: the data (\<open>None\<close> is nil) and the
  errors. The buffer is empty only when nothing was written to it (a panic left the
  body first), and \<^verbatim>\<open>Bytes\<close> of such a buffer is nil.
\<close>

definition respond :: "string \<Rightarrow> 'u state \<Rightarrow> (string option \<times> query_error list) \<times> 'u state" where
  "respond buf st =
     (case CtxErr (World st) of
        Some err \<Rightarrow> ((None, [Errorf err]), st)
      | None \<Rightarrow> ((if buf = '''' then None else Some buf, Errs st), st))"

text \<open>\<^verbatim>\<open>Request.Execute\<close>; \<open>None\<close> when it never returns.\<close>

definition Execute ::
  "request \<Rightarrow> ctx \<Rightarrow> 'u schema \<Rightarrow> OperationType \<Rightarrow> panic_value + 'u selection list \<Rightarrow>
   ('u selection list \<Rightarrow> query_error list option) \<Rightarrow> 'u state \<Rightarrow>
   ((string option \<times> query_error list) \<times> 'u state) option" where
  "Execute r c s opType ApplyOperation validateSelections st =
     (case executeBody r c s opType ApplyOperation validateSelections st of
        (Normal, buf, st') \<Rightarrow> Some (respond buf st')
      | (Panic pv, buf, st') \<Rightarrow> Some (respond buf (handlePanic r c pv st'))
      | (Hang, buf, st') \<Rightarrow> None)"

section \<open>Notions used to state the properties\<close>

text \<open>A later state extends an earlier one: errors, logged panics and spans are only appended.\<close>

definition extends :: "'u state \<Rightarrow> 'u state \<Rightarrow> bool" where
  "extends st st' =
     (prefix (Errs st) (Errs st') \<and> prefix (Logged st) (Logged st') \<and> prefix (Spans st) (Spans st'))"

text \<open>
  The part of \<^verbatim>\<open>execSelections\<close> that runs the collected fields (in goroutines or one
  after the other), and the part of \<^verbatim>\<open>execList\<close> that runs the elements.
\<close>

definition runFields ::
  "request \<Rightarrow> ctx \<Rightarrow> 'u schema \<Rightarrow> pathSegment option \<Rightarrow> bool \<Rightarrow> 'u fieldToExec list \<Rightarrow> 'u state \<Rightarrow>
   status \<times> 'u fieldToExec list \<times> 'u state" where
  "runFields r c s path async fs st =
     (if async then goFields r c s path (validOrder (Sched r (toSlice path) (length fs)) (length fs)) fs st
      else serialFields r c s path fs st)"


text \<open>
  The response keys as the operation text gives them. \<open>aliasSequence\<close> lists, in textual
  order, the alias of every field and typename selection together with the
  sub-selections that occurrence brings, a type assertion contributing its selections
  when its method reports a match. \<open>firstOccurrences\<close> keeps each alias at its first
  occurrence; \<open>mergedSels\<close> concatenates the sub-selections of all occurrences of an
  alias; \<open>objectText\<close> is a JSON object with the given keys and values, in order.
\<close>

fun aliasSequence :: "request \<Rightarrow> rvalue \<Rightarrow> 'u selection list \<Rightarrow> (string \<times> 'u selection list) list" where
  "aliasSequence r res [] = []"
| "aliasSequence r res (SchemaField sel ss # rest) = (Alias sel, ss) # aliasSequence r res rest"
| "aliasSequence r res (TypenameField al name tas # rest) = (al, []) # aliasSequence r res rest"
| "aliasSequence r res (TypeAssertion mi ss # rest) =
     (case Method r res mi of
        MethodPanics pv \<Rightarrow> []
      | MethodReturns v ok \<Rightarrow> (if ok then aliasSequence r v ss else []) @ aliasSequence r res rest)"

fun newAliases :: "string set \<Rightarrow> string list \<Rightarrow> string list" where
  "newAliases seen [] = []"
| "newAliases seen (a # rest) =
     (if a \<in> seen then newAliases seen rest else a # newAliases (insert a seen) rest)"

definition firstOccurrences :: "string list \<Rightarrow> string list" where
  "firstOccurrences xs = newAliases {} xs"

definition mergedSels :: "string \<Rightarrow> (string \<times> 'u selection list) list \<Rightarrow> 'u selection list" where
  "mergedSels a occs = concat (map snd (filter (\<lambda>p. fst p = a) occs))"

fun commaJoin :: "string list \<Rightarrow> string" where
  "commaJoin [] = []"
| "commaJoin [x] = x"
| "commaJoin (x # y # ys) = x @ '','' @ commaJoin (y # ys)"

definition objectText :: "(string \<times> string) list \<Rightarrow> string" where
  "objectText kvs =
     ''{'' @ commaJoin (map (\<lambda>(k, v). [CHR 0x22] @ k @ [CHR 0x22] @ '':'' @ v) kvs) @ ''}''"

definition aliasOf :: "'u fieldToExec \<Rightarrow> string" where
  "aliasOf f = Alias (field f)"

definition wellIndexed :: "'u fieldToExec list \<Rightarrow> (string \<rightharpoonup> nat) \<Rightarrow> bool" where
  "wellIndexed fs m =
     (distinct (map aliasOf fs) \<and> (\<forall>a i. m a = Some i \<longleftrightarrow> (i < length fs \<and> aliasOf (fs ! i) = a)))"

definition collectedFrom ::
  "'u fieldToExec list \<Rightarrow> (string \<times> 'u selection list) list \<Rightarrow> 'u fieldToExec list \<Rightarrow> bool" where
  "collectedFrom fs0 occs fs =
     (map aliasOf fs = map aliasOf fs0 @ newAliases (set (map aliasOf fs0)) (map fst occs)
      \<and> (\<forall>i<length fs. sels (fs ! i) =
            (if i < length fs0 then sels (fs0 ! i) else []) @ mergedSels (aliasOf (fs ! i)) occs))"

definition entryText :: "'u fieldToExec \<Rightarrow> string" where
  "entryText f = [CHR 0x22] @ Alias (field f) @ [CHR 0x22] @ '':'' @ out f"

text \<open>
  Running steps strictly one after the other: each step starts in the state the
  previous one has left, and nothing runs after a step that does not return. The step
  of a selection set is the complete execution of one collected field, sub-selections
  included. A block of tracer events is what one field leaves: its start, whatever
  its sub-selections record, and its finish.
\<close>

fun inOrder :: "('f \<Rightarrow> 'st \<Rightarrow> status \<times> 'b \<times> 'st) \<Rightarrow> 'f list \<Rightarrow> 'st \<Rightarrow> status \<times> 'b list \<times> 'st" where
  "inOrder step [] st = (Normal, [], st)"
| "inOrder step (f # fs) st =
     (case step f st of
        (Normal, b, st') \<Rightarrow> (case inOrder step fs st' of (stat, bs, st'') \<Rightarrow> (stat, b # bs, st''))
      | (Panic pv, b, st') \<Rightarrow> (Panic pv, [b], st')
      | (Hang, b, st') \<Rightarrow> (Hang, [b], st'))"

definition rootStep ::
  "request \<Rightarrow> ctx \<Rightarrow> 'u schema \<Rightarrow> pathSegment option \<Rightarrow> 'u fieldToExec \<Rightarrow> 'u state \<Rightarrow> status \<times> string \<times> 'u state" where
  "rootStep r c s path f st =
     execFieldSelection r c s (f\<lparr>out := ''''\<rparr>) (Some (PathSegment path (Key (Alias (field f))))) True st"

definition startEvent :: "'u schema_field \<Rightarrow> span_event" where
  "startEvent fld = FieldStart (TraceLabel fld) (TypeName fld) (Name fld) (\<not> Async fld) (Args fld)"

definition fieldBlock :: "'u fieldToExec \<Rightarrow> span_event list \<Rightarrow> bool" where
  "fieldBlock f block = (\<exists>mid e. block = startEvent (field f) # mid @ [FieldFinish e])"

text \<open>
  Two runs of one request differ in what the code leaves open: the order in which a map
  is ranged over and the order in which the goroutines run. A request is a variant of
  another when it differs from it in these two oracles only.
\<close>

definition variant :: "request \<Rightarrow> request \<Rightarrow> bool" where
  "variant r r' = (\<exists>mo sc. r' = r\<lparr>MapOrder := mo, Sched := sc\<rparr>)"

text \<open>
  A resolver is pure when what it returns does not depend on the world and it leaves
  the world as it is; a selection list is pure when all the resolvers below it are.
\<close>

definition pureField :: "'u schema_field \<Rightarrow> bool" where
  "pureField fld =
     (\<forall>c v w w'. fst (Resolve fld c v w) = fst (Resolve fld c v w') \<and> snd (Resolve fld c v w) = w)"

fun pureSels :: "'u selection list \<Rightarrow> bool" where
  "pureSels [] = True"
| "pureSels (SchemaField f ss # rest) = (pureField f \<and> pureSels ss \<and> pureSels rest)"
| "pureSels (TypenameField al name tas # rest) = pureSels rest"
| "pureSels (TypeAssertion mi ss # rest) = (pureSels ss \<and> pureSels rest)"

text \<open>
  The type assertions of a \<^verbatim>\<open>__typename\<close> selection decide the name when none of their
  methods panics and, on every value, the assertions that report a match carry one name.
\<close>

definition matches :: "request \<Rightarrow> rvalue \<Rightarrow> nat \<Rightarrow> bool" where
  "matches r v mi = (case Method r v mi of MethodReturns x ok \<Rightarrow> ok | MethodPanics pv \<Rightarrow> False)"

definition decidedTypename :: "request \<Rightarrow> (string \<times> nat) list \<Rightarrow> bool" where
  "decidedTypename r tas =
     (\<forall>v. (\<forall>e\<in>set tas. \<forall>pv. Method r v (snd e) \<noteq> MethodPanics pv)
        \<and> (\<forall>e\<in>set tas. \<forall>e'\<in>set tas. matches r v (snd e) \<and> matches r v (snd e') \<longrightarrow> fst e = fst e'))"

fun decided :: "request \<Rightarrow> 'u selection list \<Rightarrow> bool" where
  "decided r [] = True"
| "decided r (SchemaField f ss # rest) = (decided r ss \<and> decided r rest)"
| "decided r (TypenameField al name tas # rest) = (decidedTypename r tas \<and> decided r rest)"
| "decided r (TypeAssertion mi ss # rest) = (decided r ss \<and> decided r rest)"

text \<open>A collected field is pure: its name is fixed or its resolver is pure, and so are its sub-selections.\<close>

definition pureExec :: "request \<Rightarrow> 'u fieldToExec \<Rightarrow> bool" where
  "pureExec r f =
     ((FixedResult (field f) \<noteq> Invalid \<or> pureField (field f)) \<and> pureSels (sels f) \<and> decided r (sels f))"

text \<open>
  A part of the execution is settled when each of its runs, under any oracles and from
  any state whose context is live, ends in the same way with the same output, leaves
  the world as it is and appends the same errors up to their order. It blocks for ever
  only when the limiter has no capacity.
\<close>

definition settles ::
  "request \<Rightarrow> (request \<Rightarrow> 'u state \<Rightarrow> status \<times> 'b \<times> 'u state) \<Rightarrow> status \<Rightarrow> 'b \<Rightarrow> query_error multiset \<Rightarrow> bool" where
  "settles r run stat b es =
     ((stat = Hang \<longrightarrow> Limiter r = 0) \<and>
      (\<forall>r' st. variant r r' \<longrightarrow> CtxErr (World st) = None \<longrightarrow>
         (\<exists>st' new. run r' st = (stat, b, st') \<and> World st' = World st
            \<and> Errs st' = Errs st @ new \<and> mset new = es)))"

definition settled :: "request \<Rightarrow> (request \<Rightarrow> 'u state \<Rightarrow> status \<times> 'b \<times> 'u state) \<Rightarrow> bool" where
  "settled r run = (\<exists>stat b es. settles r run stat b es)"

text \<open>The error that the deferred \<^verbatim>\<open>handlePanic\<close> of a goroutine appends when the goroutine ends in a panic.\<close>

definition recovered :: "request \<Rightarrow> ctx \<Rightarrow> status \<Rightarrow> query_error multiset" where
  "recovered r c stat = (case stat of Panic pv \<Rightarrow> {#PanicHandler r c pv#} | _ \<Rightarrow> {#})"

text \<open>What \<^verbatim>\<open>Execute\<close> returns, the errors taken up to their order.\<close>

definition response ::
  "request \<Rightarrow> ctx \<Rightarrow> 'u schema \<Rightarrow> OperationType \<Rightarrow> panic_value + 'u selection list \<Rightarrow>
   ('u selection list \<Rightarrow> query_error list option) \<Rightarrow> 'u state \<Rightarrow>
   (string option \<times> query_error multiset) option" where
  "response r c s opType ApplyOperation validateSelections st =
     map_option (\<lambda>x. (fst (fst x), mset (snd (fst x))))
       (Execute r c s opType ApplyOperation validateSelections st)"

section \<open>A concrete request\<close>

definition exRequest :: request where
  "exRequest =
     \<lparr>Limiter = 10,
      PanicHandler = (\<lambda>c pv. Errorf ''panic occurred''),
      Tracer = (\<lambda>c label tn n trivial a. c),
      Marshal = (\<lambda>v. case v of Str x \<Rightarrow> Inr ([CHR 0x22] @ x @ [CHR 0x22]) | Host x \<Rightarrow> Inr x
                        | _ \<Rightarrow> Inl ''json: unsupported value''),
      StringOf = (\<lambda>v. case v of Str x \<Rightarrow> x | Host x \<Rightarrow> x | _ \<Rightarrow> ''''),
      Method = (\<lambda>v i. MethodReturns v (v = Ref (Host ''droid'') \<or> (v = Ref (Host ''human'') \<and> i = 0))),
      MapOrder = (\<lambda>tas. [0..<length tas]),
      Sched = (\<lambda>p n. [0..<n])\<rparr>"

definition exField ::
  "string \<Rightarrow> gtype \<Rightarrow> (ctx \<Rightarrow> rvalue \<Rightarrow> nat world \<Rightarrow> resolve_result \<times> nat world) \<Rightarrow> nat schema_field" where
  "exField n t f =
     \<lparr>Name = n, Alias = n, TypeName = ''Query'', TraceLabel = ''GraphQL field: '' @ n, Type = t,
      Async = False, Args = [], FixedResult = Invalid, Resolve = f\<rparr>"

definition exSchema :: "nat schema" where
  "exSchema =
     \<lparr>FieldTypename = exField ''__typename'' (NonNull (ScalarTypeDefinition ''String''))
                        (\<lambda>c v w. (Returns Invalid None, w)),
      QueryResolver = Ref (Host ''query''),
      MutationResolver = Ref (Host ''mutation''),
      SubscriptionResolver = Invalid\<rparr>"

definition exState :: "nat state" where
  "exState = \<lparr>Errs = [], Logged = [], Spans = [], World = \<lparr>CtxErr = None, User = 0\<rparr>\<rparr>"

definition exExec :: "nat schema_field \<Rightarrow> nat selection list \<Rightarrow> nat fieldToExec" where
  "exExec fld ss = \<lparr>field = fld, sels = ss, resolver = Ref (Host ''query''), out = ''''\<rparr>"

definition failing :: "nat schema_field" where
  "failing = exField ''fail'' (ScalarTypeDefinition ''String'')
     (\<lambda>c v w. (Returns Invalid (Some (ResolverError ''no such thing'' (Some [(''code'', ''404'')]))), w))"

definition panicking :: "nat schema_field" where
  "panicking = exField ''boom'' (ScalarTypeDefinition ''String'')
     (\<lambda>c v w. (Panics (PanicMsg ''index out of range''), w\<lparr>User := Suc (User w)\<rparr>))"

definition cancelling :: "nat schema_field" where
  "cancelling = exField ''first'' (ScalarTypeDefinition ''Int'')
     (\<lambda>c v w. (Returns (Host ''1'') None, w\<lparr>CtxErr := Some ''context canceled''\<rparr>))"

definition counting :: "nat schema_field" where
  "counting = exField ''second'' (ScalarTypeDefinition ''Int'')
     (\<lambda>c v w. (Returns (Host ''2'') None, w\<lparr>User := Suc (User w)\<rparr>))"

definition cancelledState :: "nat state" where
  "cancelledState = exState\<lparr>World := \<lparr>CtxErr = Some ''context canceled'', User = 0\<rparr>\<rparr>"

definition cancelRunState :: "nat state" where
  "cancelRunState =
     \<lparr>Errs = [Errorf ''context canceled''], Logged = [],
      Spans = [FieldStart ''GraphQL field: first'' ''Query'' ''first'' True [], FieldFinish None,
               FieldStart ''GraphQL field: second'' ''Query'' ''second'' True [],
               FieldFinish (Some (Errorf ''context canceled''))],
      World = \<lparr>CtxErr = Some ''context canceled'', User = 0\<rparr>\<rparr>"

definition asking :: "nat schema_field" where
  "asking = exField ''me'' (ScalarTypeDefinition ''String'')
     (\<lambda>c v w. case ArgumentsFromContext c of
                 Inl pv \<Rightarrow> (Panics pv, w)
               | Inr a \<Rightarrow> (Returns (Str (concat (map snd a))) None, w))"

definition askingWithArguments :: "nat schema_field" where
  "askingWithArguments = asking\<lparr>Args := [(''id'', ''1000'')]\<rparr>"

definition askingSeven :: "nat schema_field" where
  "askingSeven = asking\<lparr>Args := [(''id'', ''7'')]\<rparr>"

definition userField :: "nat schema_field" where
  "userField = (exField ''user'' (ObjectTypeDefinition ''User'')
                  (\<lambda>c v w. (Returns (Ref (Host ''user'')) None, w)))\<lparr>Args := [(''id'', ''1000'')]\<rparr>"

definition heroField :: "nat schema_field" where
  "heroField = exField ''hero'' (ObjectTypeDefinition ''Character'')
     (\<lambda>c v w. (Returns (Ref (Host ''human'')) None, w))"

definition nameField :: "nat schema_field" where
  "nameField = exField ''name'' (ScalarTypeDefinition ''String'')
     (\<lambda>c v w. (Returns (Str ''Luke'') None, w))"

definition idField :: "nat schema_field" where
  "idField = exField ''id'' (ScalarTypeDefinition ''ID'')
     (\<lambda>c v w. (Returns (Host ''1000'') None, w))"

definition heightField :: "nat schema_field" where
  "heightField = exField ''height'' (ScalarTypeDefinition ''Float'')
     (\<lambda>c v w. (Returns (Host ''1.72'') None, w))"

definition heroQuery :: "nat selection list" where
  "heroQuery =
     [SchemaField heroField [SchemaField nameField []],
      TypenameField ''kind'' ''Query'' [],
      TypeAssertion 0 [SchemaField heightField [], SchemaField heroField [SchemaField idField []]],
      TypeAssertion 1 [SchemaField idField []],
      TypenameField ''hero'' ''Query'' []]"

definition heroText :: string where
  "heroText =
     ''{'' @ [CHR 0x22] @ ''hero'' @ [CHR 0x22] @ '':'' @
        ''{'' @ [CHR 0x22] @ ''name'' @ [CHR 0x22] @ '':'' @ [CHR 0x22] @ ''Luke'' @ [CHR 0x22] @ '','' @
                [CHR 0x22] @ ''id'' @ [CHR 0x22] @ '':'' @ ''1000'' @ ''}'' @ '','' @
      [CHR 0x22] @ ''kind'' @ [CHR 0x22] @ '':'' @ [CHR 0x22] @ ''Query'' @ [CHR 0x22] @ '','' @
      [CHR 0x22] @ ''height'' @ [CHR 0x22] @ '':'' @ ''1.72'' @ ''}''"

definition counterText :: "nat \<Rightarrow> string" where
  "counterText n = (if n = 1 then ''1'' else if n = 2 then ''2'' else if n = 3 then ''3'' else ''many'')"

definition increment :: "string \<Rightarrow> nat schema_field" where
  "increment n = exField n (ScalarTypeDefinition ''Int'')
     (\<lambda>c v w. (Returns (Host (counterText (Suc (User w)))) None, w\<lparr>User := Suc (User w)\<rparr>))"

definition counterMutation :: "nat selection list" where
  "counterMutation = [SchemaField (increment ''a'') [], SchemaField (increment ''b'') [], SchemaField (increment ''c'') []]"

definition counterFields :: "nat fieldToExec list" where
  "counterFields =
     [\<lparr>field = increment ''a'', sels = [], resolver = Ref (Host ''mutation''), out = ''''\<rparr>,
      \<lparr>field = increment ''b'', sels = [], resolver = Ref (Host ''mutation''), out = ''''\<rparr>,
      \<lparr>field = increment ''c'', sels = [], resolver = Ref (Host ''mutation''), out = ''''\<rparr>]"

definition counterState :: "nat state" where
  "counterState =
     \<lparr>Errs = [], Logged = [],
      Spans = [FieldStart ''GraphQL field: a'' ''Query'' ''a'' True [], FieldFinish None,
               FieldStart ''GraphQL field: b'' ''Query'' ''b'' True [], FieldFinish None,
               FieldStart ''GraphQL field: c'' ''Query'' ''c'' True [], FieldFinish None],
      World = \<lparr>CtxErr = None, User = 3\<rparr>\<rparr>"

definition counterData :: string where
  "counterData =
     ''{'' @ [CHR 0x22] @ ''a'' @ [CHR 0x22] @ '':1,'' @ [CHR 0x22] @ ''b'' @ [CHR 0x22] @ '':2,'' @
             [CHR 0x22] @ ''c'' @ [CHR 0x22] @ '':3}''"

text \<open>
  A request whose type assertions exclude one another, a request with both oracles
  reversed, and a query for the type name of a hero next to two fields that fail.
\<close>

definition exclusive :: request where
  "exclusive = exRequest\<lparr>Method :=
     (\<lambda>v i. MethodReturns v ((v = Ref (Host ''human'') \<and> i = 0) \<or> (v = Ref (Host ''droid'') \<and> i = 1)))\<rparr>"

definition backwards :: "request \<Rightarrow> request" where
  "backwards r = r\<lparr>MapOrder := (\<lambda>tas. rev [0..<length tas]), Sched := (\<lambda>p n. rev [0..<n])\<rparr>"

definition droidField :: "nat schema_field" where
  "droidField = (exField ''hero'' (InterfaceTypeDefinition ''Character'')
     (\<lambda>c v w. (Returns (Ref (Host ''droid'')) None, w)))\<lparr>Async := True\<rparr>"

definition lost :: "string \<Rightarrow> nat schema_field" where
  "lost n = (exField n (ScalarTypeDefinition ''String'')
     (\<lambda>c v w. (Returns Invalid (Some (ResolverError (''no '' @ n) None)), w)))\<lparr>Async := True\<rparr>"

definition lostError :: "string \<Rightarrow> query_error" where
  "lostError n = \<lparr>Message = ''no '' @ n, Path = [Key n], ResolverErr = Some (ResolverError (''no '' @ n) None),
                   Extensions = None\<rparr>"

definition kindOf :: "nat selection" where
  "kindOf = TypenameField ''__typename'' ''Character'' [(''Human'', 0), (''Droid'', 1)]"

definition kindQuery :: "nat selection list" where
  "kindQuery = [SchemaField droidField [kindOf], SchemaField (lost ''ship'') [], SchemaField (lost ''crew'') []]"

definition kindText :: "string \<Rightarrow> string" where
  "kindText n =
     ''{'' @ [CHR 0x22] @ ''hero'' @ [CHR 0x22] @ '':'' @
        ''{'' @ [CHR 0x22] @ ''__typename'' @ [CHR 0x22] @ '':'' @ [CHR 0x22] @ n @ [CHR 0x22] @ ''}'' @ '','' @
      [CHR 0x22] @ ''ship'' @ [CHR 0x22] @ '':null,'' @ [CHR 0x22] @ ''crew'' @ [CHR 0x22] @ '':null}''"








lemmas exec_eval =
  Execute_def executeBody_def rootResolver_def respond_def
  execSelections.simps goFields.simps serialFields.simps execFieldSelection.simps
  execSelectionSet.simps execList.simps goEntries.simps serialEntries.simps
  resolveField_def resolve_def traceField_def startSpan_def finish_def elemOf_def listValues_def
  writeFields_def writeEntries_def resolvedToNull_def AddError_def handlePanic_def
  gotNil_def invalidEnum_def Errorf_def resolverQueryError_def validOrder_def validListOrder_def
  contextWithArguments_def typeOf_def mapRange_def typenameField_def

lemmas ex_defs = exRequest_def exSchema_def exState_def exField_def exExec_def

lemmas kind_defs = kindQuery_def kindOf_def droidField_def lost_def lostError_def kindText_def
  backwards_def exclusive_def


section \<open>A field whose resolver fails\<close>

lemma resolve_sels_irrelevant: "resolve (f\<lparr>sels := ss'\<rparr>) c w = resolve f c w"
  by (simp add: resolve_def)

lemma resolveField_sels_irrelevant:
  "resolveField r c tc (f\<lparr>sels := ss'\<rparr>) path st = resolveField r c tc f path st"
  by (simp add: resolveField_def resolve_sels_irrelevant
        cong: option.case_cong prod.case_cong resolve_result.case_cong if_cong)

lemma execFieldSelection_error:
  assumes "\<not> (applyLimiter \<and> Limiter r = 0)"
    and "resolveField r c (traceField r c (field f)) f path (startSpan (field f) st) = (tc, res, Some err, st')"
  shows "execFieldSelection r c s f path applyLimiter st =
           (Normal, out f @ ''null'', finish (Some err) (AddError err st'))"
  using assms by (simp add: execFieldSelection.simps)

text \<open>
  Claim C2. When the resolver of a field returns a non-nil error, \<^verbatim>\<open>execFieldSelection\<close>
  returns normally, has written \<^verbatim>\<open>null\<close> to the field's buffer, has appended exactly one
  error to the request's error list, whose path is the field's path, whose resolver error
  is the error returned and whose extensions are those the error offers; the world is the
  one the resolver left, nothing was logged, the tracer saw the start and the finish of
  this field only, and the outcome does not depend on the field's sub-selections: they
  are not executed.
\<close>

theorem resolver_error_yields_null_and_one_error:
  assumes "resolve f c (World st) = (Returns res (Some re), w)"
    and "FixedResult (field f) = Invalid"
    and "CtxErr (World st) = None"
    and "applyLimiter \<longrightarrow> 0 < Limiter r"
  shows "\<exists>st'. execFieldSelection r c s f path applyLimiter st = (Normal, out f @ ''null'', st')
           \<and> Errs st' = Errs st @ [\<lparr>Message = errorText re, Path = toSlice path,
                                      ResolverErr = Some re, Extensions = extensionsOf re\<rparr>]
           \<and> World st' = w
           \<and> Logged st' = Logged st
           \<and> Spans st' = Spans st @
                 [FieldStart (TraceLabel (field f)) (TypeName (field f)) (Name (field f))
                    (\<not> Async (field f)) (Args (field f)),
                  FieldFinish (Some \<lparr>Message = errorText re, Path = toSlice path,
                                      ResolverErr = Some re, Extensions = extensionsOf re\<rparr>)]
           \<and> (\<forall>ss'. execFieldSelection r c s (f\<lparr>sels := ss'\<rparr>) path applyLimiter st =
                       (Normal, out f @ ''null'', st'))"
proof -
  let ?e = "resolverQueryError re path"
  let ?tc = "if length (Args (field f)) \<noteq> 0
             then contextWithArguments (traceField r c (field f)) (Args (field f))
             else traceField r c (field f)"
  let ?st1 = "(startSpan (field f) st)\<lparr>World := w\<rparr>"
  have w: "World (startSpan (field f) st) = World st"
    by (simp add: startSpan_def)
  have rf: "resolveField r c (traceField r c (field f)) f path (startSpan (field f) st) =
              (?tc, Invalid, Some ?e, ?st1)"
    using assms(1,2,3) by (simp add: resolveField_def w)
  have lim: "\<not> (applyLimiter \<and> Limiter r = 0)" using assms(4) by auto
  have ex: "execFieldSelection r c s f path applyLimiter st =
              (Normal, out f @ ''null'', finish (Some ?e) (AddError ?e ?st1))"
    by (rule execFieldSelection_error[OF lim rf])
  have rf': "\<And>ss'. resolveField r c (traceField r c (field (f\<lparr>sels := ss'\<rparr>))) (f\<lparr>sels := ss'\<rparr>) path
                (startSpan (field (f\<lparr>sels := ss'\<rparr>)) st) = (?tc, Invalid, Some ?e, ?st1)"
    using rf by (simp add: resolveField_sels_irrelevant)
  have ex': "\<And>ss'. execFieldSelection r c s (f\<lparr>sels := ss'\<rparr>) path applyLimiter st =
              (Normal, out f @ ''null'', finish (Some ?e) (AddError ?e ?st1))"
    using execFieldSelection_error[OF lim rf'] by simp
  have e: "?e = \<lparr>Message = errorText re, Path = toSlice path,
                   ResolverErr = Some re, Extensions = extensionsOf re\<rparr>"
    by (simp add: resolverQueryError_def Errorf_def)
  show ?thesis
    apply (rule exI[of _ "finish (Some ?e) (AddError ?e ?st1)"])
    using ex ex' e by (simp add: finish_def AddError_def startSpan_def)
qed

theorem resolver_error_witness:
  "resolve (exExec failing []) [] (World exState) =
     (Returns Invalid (Some (ResolverError ''no such thing'' (Some [(''code'', ''404'')]))), World exState)
   \<and> FixedResult (field (exExec failing [])) = Invalid
   \<and> CtxErr (World exState) = None
   \<and> 0 < Limiter exRequest
   \<and> (\<exists>st'. execFieldSelection exRequest [] exSchema (exExec failing [])
                 (Some (PathSegment None (Key ''fail''))) True exState = (Normal, ''null'', st')
          \<and> Errs st' = [\<lparr>Message = ''no such thing'', Path = [Key ''fail''],
                           ResolverErr = Some (ResolverError ''no such thing'' (Some [(''code'', ''404'')])),
                           Extensions = Some [(''code'', ''404'')]\<rparr>]
          \<and> World st' = World exState)"
proof -
  have a: "resolve (exExec failing []) [] (World exState) =
     (Returns Invalid (Some (ResolverError ''no such thing'' (Some [(''code'', ''404'')]))), World exState)"
    by (simp add: resolve_def exExec_def failing_def exField_def)
  have b: "FixedResult (field (exExec failing [])) = Invalid"
    by (simp add: exExec_def failing_def exField_def)
  have c: "CtxErr (World exState) = None"
    by (simp add: exState_def)
  have d: "True \<longrightarrow> 0 < Limiter exRequest"
    by (simp add: exRequest_def)
  from resolver_error_yields_null_and_one_error[OF a b c d,
      of exSchema "Some (PathSegment None (Key ''fail''))"]
  obtain st' where
    "execFieldSelection exRequest [] exSchema (exExec failing [])
       (Some (PathSegment None (Key ''fail''))) True exState = (Normal, out (exExec failing []) @ ''null'', st')"
    "Errs st' = Errs exState @ [\<lparr>Message = errorText (ResolverError ''no such thing'' (Some [(''code'', ''404'')])),
        Path = toSlice (Some (PathSegment None (Key ''fail''))),
        ResolverErr = Some (ResolverError ''no such thing'' (Some [(''code'', ''404'')])),
        Extensions = extensionsOf (ResolverError ''no such thing'' (Some [(''code'', ''404'')]))\<rparr>]"
    "World st' = World exState"
    by blast
  then have "execFieldSelection exRequest [] exSchema (exExec failing [])
                 (Some (PathSegment None (Key ''fail''))) True exState = (Normal, ''null'', st')
          \<and> Errs st' = [\<lparr>Message = ''no such thing'', Path = [Key ''fail''],
                           ResolverErr = Some (ResolverError ''no such thing'' (Some [(''code'', ''404'')])),
                           Extensions = Some [(''code'', ''404'')]\<rparr>]
          \<and> World st' = World exState"
    by (simp add: exExec_def exState_def)
  with a b c d show ?thesis by blast
qed

section \<open>A field whose resolver panics\<close>

text \<open>
  Claim C3. When the resolver of a field panics, \<^verbatim>\<open>execFieldSelection\<close> returns
  normally (the panic does not leave it), the panic value has been handed to the
  logger, the error that the panic handler makes of it, with the path of this field, is
  the one error appended to the request's error list, and the field's buffer has
  received \<^verbatim>\<open>null\<close>.
\<close>

theorem resolver_panic_is_recovered:
  assumes "resolve f c (World st) = (Panics pv, w)"
    and "FixedResult (field f) = Invalid"
    and "CtxErr (World st) = None"
    and "applyLimiter \<longrightarrow> 0 < Limiter r"
  shows "\<exists>st'. execFieldSelection r c s f path applyLimiter st = (Normal, out f @ ''null'', st')
           \<and> Logged st' = Logged st @ [pv]
           \<and> Errs st' = Errs st @ [(PanicHandler r c pv)\<lparr>Path := toSlice path\<rparr>]
           \<and> World st' = w"
proof -
  let ?e = "(PanicHandler r c pv)\<lparr>Path := toSlice path\<rparr>"
  let ?st1 = "(startSpan (field f) st)\<lparr>Logged := Logged (startSpan (field f) st) @ [pv], World := w\<rparr>"
  have w: "World (startSpan (field f) st) = World st"
    by (simp add: startSpan_def)
  have rf: "resolveField r c (traceField r c (field f)) f path (startSpan (field f) st) =
              (traceField r c (field f), Invalid, Some ?e, ?st1)"
    using assms(1,2,3) by (simp add: resolveField_def w)
  have lim: "\<not> (applyLimiter \<and> Limiter r = 0)" using assms(4) by auto
  have ex: "execFieldSelection r c s f path applyLimiter st =
              (Normal, out f @ ''null'', finish (Some ?e) (AddError ?e ?st1))"
    by (rule execFieldSelection_error[OF lim rf])
  show ?thesis
    apply (rule exI[of _ "finish (Some ?e) (AddError ?e ?st1)"])
    using ex by (simp add: finish_def AddError_def startSpan_def)
qed

theorem resolver_panic_witness:
  "resolve (exExec panicking []) [] (World exState) =
     (Panics (PanicMsg ''index out of range''), \<lparr>CtxErr = None, User = 1\<rparr>)
   \<and> FixedResult (field (exExec panicking [])) = Invalid
   \<and> CtxErr (World exState) = None
   \<and> 0 < Limiter exRequest
   \<and> (\<exists>st'. execFieldSelection exRequest [] exSchema (exExec panicking [])
                 (Some (PathSegment None (Key ''boom''))) True exState = (Normal, ''null'', st')
          \<and> Logged st' = [PanicMsg ''index out of range'']
          \<and> Errs st' = [\<lparr>Message = ''panic occurred'', Path = [Key ''boom''],
                           ResolverErr = None, Extensions = None\<rparr>]
          \<and> World st' = \<lparr>CtxErr = None, User = 1\<rparr>)"
proof -
  have a: "resolve (exExec panicking []) [] (World exState) =
     (Panics (PanicMsg ''index out of range''), \<lparr>CtxErr = None, User = 1\<rparr>)"
    by (simp add: resolve_def exExec_def panicking_def exField_def exState_def)
  have b: "FixedResult (field (exExec panicking [])) = Invalid"
    by (simp add: exExec_def panicking_def exField_def)
  have c: "CtxErr (World exState) = None"
    by (simp add: exState_def)
  have d: "True \<longrightarrow> 0 < Limiter exRequest"
    by (simp add: exRequest_def)
  from resolver_panic_is_recovered[OF a b c d, of exSchema "Some (PathSegment None (Key ''boom''))"]
  obtain st' where
    "execFieldSelection exRequest [] exSchema (exExec panicking [])
       (Some (PathSegment None (Key ''boom''))) True exState = (Normal, out (exExec panicking []) @ ''null'', st')"
    "Logged st' = Logged exState @ [PanicMsg ''index out of range'']"
    "Errs st' = Errs exState @ [(PanicHandler exRequest [] (PanicMsg ''index out of range''))
                    \<lparr>Path := toSlice (Some (PathSegment None (Key ''boom'')))\<rparr>]"
    "World st' = \<lparr>CtxErr = None, User = 1\<rparr>"
    by blast
  then have "execFieldSelection exRequest [] exSchema (exExec panicking [])
                 (Some (PathSegment None (Key ''boom''))) True exState = (Normal, ''null'', st')
          \<and> Logged st' = [PanicMsg ''index out of range'']
          \<and> Errs st' = [\<lparr>Message = ''panic occurred'', Path = [Key ''boom''],
                           ResolverErr = None, Extensions = None\<rparr>]
          \<and> World st' = \<lparr>CtxErr = None, User = 1\<rparr>"
    by (simp add: exExec_def exState_def exRequest_def Errorf_def)
  with a b c d show ?thesis by blast
qed

section \<open>Cancellation\<close>

lemma resolveField_cancelled:
  assumes "CtxErr (World st) = Some e" and "FixedResult (field f) = Invalid"
  shows "resolveField r c tc f path st = (tc, Invalid, Some (Errorf e), st)"
  using assms by (simp add: resolveField_def)

lemma respond_cancelled:
  "CtxErr (World st) = Some e \<Longrightarrow> respond buf st = ((None, [Errorf e]), st)"
  by (simp add: respond_def)

lemma respond_state: "snd (respond buf st) = st"
  by (simp add: respond_def split: option.splits)

lemma Execute_cancelled:
  assumes "Execute r c s opType ap v st = Some ((dat, errs), st')"
    and "CtxErr (World st') = Some e"
  shows "dat = None \<and> errs = [Errorf e]"
proof -
  obtain stat buf st1 where b: "executeBody r c s opType ap v st = (stat, buf, st1)"
    by (cases "executeBody r c s opType ap v st") auto
  show ?thesis
  proof (cases stat)
    case Normal
    with b assms(1) have r: "respond buf st1 = ((dat, errs), st')"
      by (simp add: Execute_def)
    then have "st1 = st'" using respond_state[of buf st1] by simp
    with r respond_cancelled[OF assms(2), of buf] show ?thesis by simp
  next
    case (Panic pv)
    with b assms(1) have r: "respond buf (handlePanic r c pv st1) = ((dat, errs), st')"
      by (simp add: Execute_def)
    then have "handlePanic r c pv st1 = st'" using respond_state[of buf "handlePanic r c pv st1"] by simp
    with r respond_cancelled[OF assms(2), of buf] show ?thesis by simp
  next
    case Hang
    with b assms(1) show ?thesis by (simp add: Execute_def)
  qed
qed

text \<open>
  Claim C4. Once the context is cancelled, a field that has no fixed result is not
  resolved: whatever its resolver is, \<^verbatim>\<open>execFieldSelection\<close> writes \<^verbatim>\<open>null\<close> and
  records the error made of the context's error, and the world stays as it was. And when
  the context is cancelled at the time \<^verbatim>\<open>Execute\<close> has run its body, it returns nil data
  and exactly the one error made of the context's error, whatever output and errors the
  execution had gathered.
\<close>

theorem cancelled_context_skips_resolvers_and_drops_data:
  "(CtxErr (World st) = Some e \<and> FixedResult (field f) = Invalid \<and> (applyLimiter \<longrightarrow> 0 < Limiter r) \<longrightarrow>
      (\<forall>g. execFieldSelection r c s (f\<lparr>field := (field f)\<lparr>Resolve := g\<rparr>\<rparr>) path applyLimiter st =
            (Normal, out f @ ''null'',
             finish (Some (Errorf e)) (AddError (Errorf e) (startSpan (field f) st)))))
   \<and> (Execute r c' s' opType ap v st0 = Some ((dat, errs), st') \<and> CtxErr (World st') = Some e' \<longrightarrow>
        dat = None \<and> errs = [Errorf e'])"
proof (intro conjI impI allI)
  fix g
  assume a: "CtxErr (World st) = Some e \<and> FixedResult (field f) = Invalid \<and> (applyLimiter \<longrightarrow> 0 < Limiter r)"
  let ?f = "f\<lparr>field := (field f)\<lparr>Resolve := g\<rparr>\<rparr>"
  have lim: "\<not> (applyLimiter \<and> Limiter r = 0)" using a by auto
  have w: "CtxErr (World (startSpan (field ?f) st)) = Some e"
    using a by (simp add: startSpan_def)
  have fx: "FixedResult (field ?f) = Invalid" using a by simp
  from execFieldSelection_error[OF lim resolveField_cancelled[OF w fx], where s = s]
  show "execFieldSelection r c s ?f path applyLimiter st =
          (Normal, out f @ ''null'', finish (Some (Errorf e)) (AddError (Errorf e) (startSpan (field f) st)))"
    by (simp add: startSpan_def)
next
  assume "Execute r c' s' opType ap v st0 = Some ((dat, errs), st') \<and> CtxErr (World st') = Some e'"
  then show "dat = None" using Execute_cancelled by blast
next
  assume "Execute r c' s' opType ap v st0 = Some ((dat, errs), st') \<and> CtxErr (World st') = Some e'"
  then show "errs = [Errorf e']" using Execute_cancelled by blast
qed

theorem cancelled_context_witness:
  "CtxErr (World cancelledState) = Some ''context canceled''
   \<and> FixedResult (field (exExec counting [])) = Invalid
   \<and> 0 < Limiter exRequest
   \<and> execFieldSelection exRequest [] exSchema (exExec counting [])
        (Some (PathSegment None (Key ''second''))) True cancelledState =
         (Normal, ''null'',
          finish (Some (Errorf ''context canceled''))
            (AddError (Errorf ''context canceled'') (startSpan counting cancelledState)))
   \<and> Execute exRequest [] exSchema Query (Inr [SchemaField cancelling [], SchemaField counting []])
        (\<lambda>ss. None) exState = Some ((None, [Errorf ''context canceled'']), cancelRunState)
   \<and> CtxErr (World cancelRunState) = Some ''context canceled''"
proof -
  have a: "CtxErr (World cancelledState) = Some ''context canceled''"
    by (simp add: cancelledState_def)
  have b: "FixedResult (field (exExec counting [])) = Invalid"
    by (simp add: ex_defs counting_def)
  have c: "0 < Limiter exRequest"
    by (simp add: exRequest_def)
  have run: "Execute exRequest [] exSchema Query (Inr [SchemaField cancelling [], SchemaField counting []])
        (\<lambda>ss. None) exState = Some ((None, [Errorf ''context canceled'']), cancelRunState)"
    by (simp add: exec_eval ex_defs cancelling_def counting_def cancelRunState_def)
  have d: "CtxErr (World cancelRunState) = Some ''context canceled''"
    by (simp add: cancelRunState_def)
  have same: "(exExec counting [])\<lparr>field := (field (exExec counting []))\<lparr>Resolve := Resolve counting\<rparr>\<rparr>
                = exExec counting []"
    by (simp add: exExec_def)
  from cancelled_context_skips_resolvers_and_drops_data[where st = cancelledState
      and e = "''context canceled''" and f = "exExec counting []" and applyLimiter = True
      and r = exRequest and c = "[]" and s = exSchema and path = "Some (PathSegment None (Key ''second''))"]
    a b c
  have "\<forall>g. execFieldSelection exRequest [] exSchema
              ((exExec counting [])\<lparr>field := (field (exExec counting []))\<lparr>Resolve := g\<rparr>\<rparr>)
              (Some (PathSegment None (Key ''second''))) True cancelledState =
            (Normal, out (exExec counting []) @ ''null'',
             finish (Some (Errorf ''context canceled''))
               (AddError (Errorf ''context canceled'') (startSpan (field (exExec counting [])) cancelledState)))"
    by blast
  then have "execFieldSelection exRequest [] exSchema
              ((exExec counting [])\<lparr>field := (field (exExec counting []))\<lparr>Resolve := Resolve counting\<rparr>\<rparr>)
              (Some (PathSegment None (Key ''second''))) True cancelledState =
            (Normal, out (exExec counting []) @ ''null'',
             finish (Some (Errorf ''context canceled''))
               (AddError (Errorf ''context canceled'') (startSpan (field (exExec counting [])) cancelledState)))"
    by (rule spec)
  then have e: "execFieldSelection exRequest [] exSchema (exExec counting [])
        (Some (PathSegment None (Key ''second''))) True cancelledState =
         (Normal, ''null'',
          finish (Some (Errorf ''context canceled''))
            (AddError (Errorf ''context canceled'') (startSpan counting cancelledState)))"
    unfolding same by (simp add: exExec_def)
  from a b c e run d show ?thesis by blast
qed

section \<open>The arguments in the context\<close>

lemma ArgsFromContext_absent:
  "ctxLookup c argumentsKey = None \<Longrightarrow>
   ArgsFromContext c = Inl (PanicMsg ''interface conversion: interface {} is nil, not map[string]interface {}'')"
  by (simp add: ArgsFromContext_def)

lemma resolveField_context_without_arguments:
  "Args (field f) = [] \<Longrightarrow> fst (resolveField r c tc f path st) = tc"
  by (simp add: resolveField_def split: option.splits prod.splits resolve_result.splits)

text \<open>
  Claim C10. Take a field with no arguments, executed under a context in which no
  enclosing field has put arguments, and a resolver that calls
  \<^verbatim>\<open>ArgumentsFromContext\<close> on the context it is given. The call panics (the unchecked
  type assertion meets the nil value of the absent key): it returns neither an empty map
  nor nil. The resolver therefore panics, which the engine recovers as for any panic of a
  resolver. A field without arguments never sets the key: the context it hands on is
  the one it got from the tracer.
\<close>

theorem ArgumentsFromContext_panics_without_arguments:
  assumes "Args (field f) = []"
    and "ctxLookup c argumentsKey = None"
    and "Resolve (field f) =
           (\<lambda>c' v w. case ArgumentsFromContext c' of Inl pv \<Rightarrow> (Panics pv, w) | Inr a \<Rightarrow> g a c' v w)"
    and "FixedResult (field f) = Invalid"
    and "CtxErr (World st) = None"
    and "applyLimiter \<longrightarrow> 0 < Limiter r"
  shows "ArgumentsFromContext c =
           Inl (PanicMsg ''interface conversion: interface {} is nil, not map[string]interface {}'')
         \<and> resolve f c (World st) =
           (Panics (PanicMsg ''interface conversion: interface {} is nil, not map[string]interface {}''), World st)
         \<and> (\<exists>st'. execFieldSelection r c s f path applyLimiter st = (Normal, out f @ ''null'', st')
               \<and> Logged st' = Logged st @
                    [PanicMsg ''interface conversion: interface {} is nil, not map[string]interface {}'']
               \<and> Errs st' = Errs st @
                    [(PanicHandler r c
                        (PanicMsg ''interface conversion: interface {} is nil, not map[string]interface {}''))
                       \<lparr>Path := toSlice path\<rparr>])
         \<and> (\<forall>tc st0. fst (resolveField r c tc f path st0) = tc)"
proof -
  let ?pv = "PanicMsg ''interface conversion: interface {} is nil, not map[string]interface {}''"
  let ?e = "(PanicHandler r c ?pv)\<lparr>Path := toSlice path\<rparr>"
  let ?st1 = "(startSpan (field f) st)\<lparr>Logged := Logged (startSpan (field f) st) @ [?pv], World := World st\<rparr>"
  have a: "ArgumentsFromContext c = Inl ?pv"
    using assms(2) by (simp add: ArgumentsFromContext_def ArgsFromContext_absent)
  have b: "resolve f c (World st) = (Panics ?pv, World st)"
    using a assms(3) by (simp add: resolve_def)
  have w: "World (startSpan (field f) st) = World st"
    by (simp add: startSpan_def)
  have rf: "resolveField r c (traceField r c (field f)) f path (startSpan (field f) st) =
              (traceField r c (field f), Invalid, Some ?e, ?st1)"
    using b assms(4,5) by (simp add: resolveField_def w)
  have lim: "\<not> (applyLimiter \<and> Limiter r = 0)" using assms(6) by auto
  have ex: "execFieldSelection r c s f path applyLimiter st =
              (Normal, out f @ ''null'', finish (Some ?e) (AddError ?e ?st1))"
    by (rule execFieldSelection_error[OF lim rf])
  have c: "\<exists>st'. execFieldSelection r c s f path applyLimiter st = (Normal, out f @ ''null'', st')
               \<and> Logged st' = Logged st @ [?pv] \<and> Errs st' = Errs st @ [?e]"
    apply (rule exI[of _ "finish (Some ?e) (AddError ?e ?st1)"])
    using ex by (simp add: finish_def AddError_def startSpan_def)
  have d: "\<forall>tc st0. fst (resolveField r c tc f path st0) = tc"
    using resolveField_context_without_arguments[OF assms(1)] by blast
  from a b c d show ?thesis by blast
qed

theorem ArgumentsFromContext_panics_witness:
  "Args (field (exExec asking [])) = []
   \<and> ctxLookup [] argumentsKey = None
   \<and> FixedResult (field (exExec asking [])) = Invalid
   \<and> CtxErr (World exState) = None
   \<and> 0 < Limiter exRequest
   \<and> ArgumentsFromContext [] =
        Inl (PanicMsg ''interface conversion: interface {} is nil, not map[string]interface {}'')
   \<and> (\<exists>st'. execFieldSelection exRequest [] exSchema (exExec asking [])
                (Some (PathSegment None (Key ''me''))) True exState = (Normal, ''null'', st')
          \<and> Logged st' = [PanicMsg ''interface conversion: interface {} is nil, not map[string]interface {}'']
          \<and> Errs st' = [\<lparr>Message = ''panic occurred'', Path = [Key ''me''],
                           ResolverErr = None, Extensions = None\<rparr>])"
proof -
  have a: "Args (field (exExec asking [])) = []"
    by (simp add: ex_defs asking_def)
  have b: "ctxLookup [] argumentsKey = None"
    by (simp add: ctxLookup_def)
  have c: "Resolve (field (exExec asking [])) =
           (\<lambda>c' v w. case ArgumentsFromContext c' of Inl pv \<Rightarrow> (Panics pv, w)
                       | Inr a \<Rightarrow> (\<lambda>a c' v w. (Returns (Str (concat (map snd a))) None, w)) a c' v w)"
    by (simp add: ex_defs asking_def)
  have d: "FixedResult (field (exExec asking [])) = Invalid"
    by (simp add: ex_defs asking_def)
  have e: "CtxErr (World exState) = None"
    by (simp add: exState_def)
  have f: "True \<longrightarrow> 0 < Limiter exRequest"
    by (simp add: exRequest_def)
  from ArgumentsFromContext_panics_without_arguments[OF a b c d e f,
      where s = exSchema and path = "Some (PathSegment None (Key ''me''))"]
  obtain st' where
    "ArgumentsFromContext [] =
        Inl (PanicMsg ''interface conversion: interface {} is nil, not map[string]interface {}'')"
    "execFieldSelection exRequest [] exSchema (exExec asking [])
        (Some (PathSegment None (Key ''me''))) True exState = (Normal, out (exExec asking []) @ ''null'', st')"
    "Logged st' = Logged exState @
         [PanicMsg ''interface conversion: interface {} is nil, not map[string]interface {}'']"
    "Errs st' = Errs exState @
         [(PanicHandler exRequest []
             (PanicMsg ''interface conversion: interface {} is nil, not map[string]interface {}''))
            \<lparr>Path := toSlice (Some (PathSegment None (Key ''me'')))\<rparr>]"
    by blast
  then have "ArgumentsFromContext [] =
        Inl (PanicMsg ''interface conversion: interface {} is nil, not map[string]interface {}'')
   \<and> (execFieldSelection exRequest [] exSchema (exExec asking [])
                (Some (PathSegment None (Key ''me''))) True exState = (Normal, ''null'', st')
          \<and> Logged st' = [PanicMsg ''interface conversion: interface {} is nil, not map[string]interface {}'']
          \<and> Errs st' = [\<lparr>Message = ''panic occurred'', Path = [Key ''me''],
                           ResolverErr = None, Extensions = None\<rparr>])"
    by (simp add: ex_defs Errorf_def)
  with a b d e f show ?thesis by blast
qed

lemma resolveField_depends_on_call:
  assumes "g c (resolver f) (World st) = Resolve (field f) c (resolver f) (World st)"
  shows "resolveField r c tc (f\<lparr>field := (field f)\<lparr>Resolve := g\<rparr>\<rparr>) path st = resolveField r c tc f path st"
proof -
  have "resolve (f\<lparr>field := (field f)\<lparr>Resolve := g\<rparr>\<rparr>) c (World st) = resolve f c (World st)"
    using assms by (simp add: resolve_def)
  then show ?thesis
    by (simp add: resolveField_def
          cong: option.case_cong prod.case_cong resolve_result.case_cong if_cong)
qed

lemma execFieldSelection_resolved:
  assumes "\<not> (applyLimiter \<and> Limiter r = 0)"
    and "resolveField r c (traceField r c (field f)) f path (startSpan (field f) st) = (tc, res, None, st')"
  shows "execFieldSelection r c s f path applyLimiter st =
           (case execSelectionSet r tc (sels f) (Type (field f)) path s res (out f) st' of
              (stat, b, st'') \<Rightarrow> (stat, b, finish None st''))"
  using assms by (cases applyLimiter) (simp_all add: execFieldSelection.simps)

text \<open>
  What \<^verbatim>\<open>execFieldSelection\<close> does with the arguments of a field that declares some and
  whose resolver returns without error: the resolver is called with the context the
  engine was given, and only then is the tracing context extended with the arguments;
  the sub-selections run under that extended context, from which
  \<^verbatim>\<open>ArgumentsFromContext\<close> gives the arguments back. The outcome depends on the resolver
  only through what it does on the context the engine was given.
\<close>

lemma arguments_are_set_after_the_resolver:
  assumes "Args (field f) \<noteq> []"
    and "FixedResult (field f) = Invalid"
    and "CtxErr (World st) = None"
    and "resolve f c (World st) = (Returns res None, w)"
    and "applyLimiter \<longrightarrow> 0 < Limiter r"
  shows "execFieldSelection r c s f path applyLimiter st =
           (case execSelectionSet r (contextWithArguments (traceField r c (field f)) (Args (field f)))
                   (sels f) (Type (field f)) path s res (out f) ((startSpan (field f) st)\<lparr>World := w\<rparr>) of
              (stat, b, st'') \<Rightarrow> (stat, b, finish None st''))
         \<and> ArgumentsFromContext (contextWithArguments (traceField r c (field f)) (Args (field f))) =
             Inr (Args (field f))
         \<and> (\<forall>g. g c (resolver f) (World st) = Resolve (field f) c (resolver f) (World st) \<longrightarrow>
                execFieldSelection r c s (f\<lparr>field := (field f)\<lparr>Resolve := g\<rparr>\<rparr>) path applyLimiter st =
                execFieldSelection r c s f path applyLimiter st)"
proof -
  let ?tc = "contextWithArguments (traceField r c (field f)) (Args (field f))"
  let ?st1 = "(startSpan (field f) st)\<lparr>World := w\<rparr>"
  have w: "World (startSpan (field f) st) = World st"
    by (simp add: startSpan_def)
  have rf: "resolveField r c (traceField r c (field f)) f path (startSpan (field f) st) =
              (?tc, res, None, ?st1)"
    using assms(1-4) by (simp add: resolveField_def w)
  have lim: "\<not> (applyLimiter \<and> Limiter r = 0)" using assms(5) by auto
  have a: "execFieldSelection r c s f path applyLimiter st =
           (case execSelectionSet r ?tc (sels f) (Type (field f)) path s res (out f) ?st1 of
              (stat, b, st'') \<Rightarrow> (stat, b, finish None st''))"
    by (rule execFieldSelection_resolved[OF lim rf])
  have b: "ArgumentsFromContext ?tc = Inr (Args (field f))"
    by (simp add: ArgumentsFromContext_def ArgsFromContext_def ctxLookup_def contextWithArguments_def)
  have c: "execFieldSelection r c s (f\<lparr>field := (field f)\<lparr>Resolve := g\<rparr>\<rparr>) path applyLimiter st =
           execFieldSelection r c s f path applyLimiter st"
    if g: "g c (resolver f) (World st) = Resolve (field f) c (resolver f) (World st)" for g
  proof -
    let ?f = "f\<lparr>field := (field f)\<lparr>Resolve := g\<rparr>\<rparr>"
    have g': "g c (resolver f) (World (startSpan (field f) st)) =
              Resolve (field f) c (resolver f) (World (startSpan (field f) st))"
      using g by (simp add: w)
    have "resolveField r c (traceField r c (field ?f)) ?f path (startSpan (field ?f) st) =
          resolveField r c (traceField r c (field f)) f path (startSpan (field f) st)"
      using resolveField_depends_on_call[where g = g and c = c and f = f
          and st = "startSpan (field f) st" and r = r and tc = "traceField r c (field f)" and path = path] g'
      by (simp add: traceField_def startSpan_def)
    with rf have "resolveField r c (traceField r c (field ?f)) ?f path (startSpan (field ?f) st) =
                    (?tc, res, None, ?st1)" by simp
    from execFieldSelection_resolved[OF lim this, of s] a show ?thesis by simp
  qed
  from a b c show ?thesis by blast
qed

text \<open>
  Claim C8. The claim has the arguments of a field in the context its resolver is called
  with, and \<^verbatim>\<open>ArgumentsFromContext\<close> is documented as returning the arguments for the
  field. The code calls \<^verbatim>\<open>f.resolve(ctx)\<close> first and extends \<^verbatim>\<open>traceCtx\<close> afterwards, so
  the resolver never sees the arguments of its own field. Evaluated on two queries: the
  root field \<^verbatim>\<open>me(id: "1000")\<close>, whose resolver asks \<^verbatim>\<open>ArgumentsFromContext\<close> for its
  arguments, panics on the absent key and answers \<^verbatim>\<open>null\<close>; and under
  \<^verbatim>\<open>user(id: "1000")\<close> the field \<^verbatim>\<open>me(id: "7")\<close> answers with the \<^verbatim>\<open>1000\<close> of the
  enclosing field instead of its own \<^verbatim>\<open>7\<close>.
\<close>

theorem resolver_cannot_read_its_own_arguments:
  "Args (field (exExec askingWithArguments [])) = [(''id'', ''1000'')]
   \<and> resolve (exExec askingWithArguments []) [] (World exState) =
       (Panics (PanicMsg ''interface conversion: interface {} is nil, not map[string]interface {}''), World exState)
   \<and> execFieldSelection exRequest [] exSchema (exExec askingWithArguments [])
        (Some (PathSegment None (Key ''me''))) True exState =
       (Normal, ''null'',
        \<lparr>Errs = [\<lparr>Message = ''panic occurred'', Path = [Key ''me''], ResolverErr = None, Extensions = None\<rparr>],
         Logged = [PanicMsg ''interface conversion: interface {} is nil, not map[string]interface {}''],
         Spans = [FieldStart ''GraphQL field: me'' ''Query'' ''me'' True [(''id'', ''1000'')],
                  FieldFinish (Some \<lparr>Message = ''panic occurred'', Path = [Key ''me''],
                                       ResolverErr = None, Extensions = None\<rparr>)],
         World = \<lparr>CtxErr = None, User = 0\<rparr>\<rparr>)
   \<and> Args askingSeven = [(''id'', ''7'')]
   \<and> Args userField = [(''id'', ''1000'')]
   \<and> fst (execFieldSelection exRequest [] exSchema (exExec userField [SchemaField askingSeven []])
             (Some (PathSegment None (Key ''user''))) True exState) = Normal
   \<and> fst (snd (execFieldSelection exRequest [] exSchema (exExec userField [SchemaField askingSeven []])
             (Some (PathSegment None (Key ''user''))) True exState)) =
        ''{'' @ [CHR 0x22] @ ''me'' @ [CHR 0x22] @ '':'' @ [CHR 0x22] @ ''1000'' @ [CHR 0x22] @ ''}''
   \<and> Errs (snd (snd (execFieldSelection exRequest [] exSchema (exExec userField [SchemaField askingSeven []])
             (Some (PathSegment None (Key ''user''))) True exState))) = []"
  by (simp add: exec_eval ex_defs askingWithArguments_def askingSeven_def asking_def userField_def
        ArgumentsFromContext_def ArgsFromContext_def ctxLookup_def)

section \<open>The request's lists only grow\<close>

lemma extends_refl [simp]: "extends st st"
  by (simp add: extends_def)

lemma extends_trans: "extends a b \<Longrightarrow> extends b c \<Longrightarrow> extends a c"
  by (auto simp: extends_def intro: prefix_order.trans)

lemma extends_AddError: "extends st st' \<Longrightarrow> extends st (AddError e st')"
  by (auto simp: extends_def AddError_def intro: prefix_order.trans)

lemma extends_handlePanic: "extends st st' \<Longrightarrow> extends st (handlePanic r c pv st')"
  by (auto simp: extends_def handlePanic_def AddError_def intro: prefix_order.trans)

lemma extends_finish: "extends st st' \<Longrightarrow> extends st (finish e st')"
  by (auto simp: extends_def finish_def intro: prefix_order.trans)

lemma extends_startSpan: "extends st st' \<Longrightarrow> extends st (startSpan f st')"
  by (auto simp: extends_def startSpan_def intro: prefix_order.trans)

lemma extends_resolveField:
  "resolveField r c tc f path st = (tc', res, err, st') \<Longrightarrow> extends st st'"
  by (auto simp: resolveField_def extends_def split: if_splits option.splits prod.splits resolve_result.splits)

lemma exec_extends:
  shows "extends st (snd (snd (execSelections r c ss path s res buf serially st)))"
    and "extends st (snd (snd (goFields r c s path ord fs st)))"
    and "extends st (snd (snd (serialFields r c s path fs st)))"
    and "extends st (snd (snd (execFieldSelection r c s f path applyLimiter st)))"
    and "extends st (snd (snd (execSelectionSet r c ss ty path s res buf st)))"
    and "extends st (snd (snd (execList r c ss ofType path s res buf st)))"
    and "extends st (snd (snd (goEntries r c ss ofType path s vs ord entryouts st)))"
    and "extends st (snd (snd (serialEntries r c ss ofType path s i vs st)))"
proof (induct r c ss path s res buf serially st
         and r c s path ord fs st
         and r c s path fs st
         and r c s f path applyLimiter st
         and r c ss ty path s res buf st
         and r c ss ofType path s res buf st
         and r c ss ofType path s vs ord entryouts st
         and r c ss ofType path s i vs st
       rule: execSelections_goFields_serialFields_execFieldSelection_execSelectionSet_execList_goEntries_serialEntries.induct)
  case (1 r c ss path s res buf serially st)
  show ?case
  proof (cases "collectFieldsToResolve r ss s res ([], Map.empty)")
    case (Inl pv)
    then show ?thesis by (subst execSelections.simps) simp
  next
    case (Inr b)
    obtain fs m where b: "(fs, m) = b" by (cases b) auto
    show ?thesis
    proof (cases "\<not> serially \<and> HasAsyncSel ss")
      case True
      from 1(1)[OF Inr b True] Inr b[symmetric] True show ?thesis
        by (subst execSelections.simps) (auto split: prod.splits status.splits)
    next
      case False
      from 1(2)[OF Inr b False] Inr b[symmetric] False show ?thesis
        by (subst execSelections.simps) (auto split: prod.splits status.splits)
    qed
  qed
next
  case (2 r c s path ord fs st)
  show ?case
  proof (cases ord)
    case Nil
    then show ?thesis by (subst goFields.simps) simp
  next
    case (Cons i rest)
    show ?thesis
    proof (cases "i < length fs")
      case False
      from 2(4)[OF Cons False] Cons False show ?thesis
        by (subst goFields.simps) simp
    next
      case True
      obtain stat b st1 where e: "(stat, b, st1) =
          execFieldSelection r c s ((fs ! i)\<lparr>out := ''''\<rparr>)
            (Some (PathSegment path (Key (Alias (field (fs ! i)))))) True st"
        by (metis prod_cases3)
      from 2(1)[OF Cons True] e[symmetric] have a: "extends st st1" by simp
      show ?thesis
      proof (cases stat)
        case Normal
        from 2(2)[OF Cons True e Normal refl]
        have "extends st1 (snd (snd (goFields r c s path rest (fs[i := (fs ! i)\<lparr>out := b\<rparr>]) st1)))" .
        with a have "extends st (snd (snd (goFields r c s path rest (fs[i := (fs ! i)\<lparr>out := b\<rparr>]) st1)))"
          by (rule extends_trans)
        with Cons True e[symmetric] Normal show ?thesis
          by (subst goFields.simps) simp
      next
        case (Panic pv)
        from 2(3)[OF Cons True e Panic refl]
        have "extends (handlePanic r c pv st1)
                (snd (snd (goFields r c s path rest (fs[i := (fs ! i)\<lparr>out := b\<rparr>]) (handlePanic r c pv st1))))" .
        with extends_handlePanic[OF a, of r c pv]
        have "extends st (snd (snd (goFields r c s path rest (fs[i := (fs ! i)\<lparr>out := b\<rparr>]) (handlePanic r c pv st1))))"
          by (rule extends_trans)
        with Cons True e[symmetric] Panic show ?thesis
          by (subst goFields.simps) simp
      next
        case Hang
        with Cons True e[symmetric] a show ?thesis
          by (subst goFields.simps) simp
      qed
    qed
  qed
next
  case (3 r c s path fs st)
  show ?case
  proof (cases fs)
    case Nil
    then show ?thesis by (subst serialFields.simps) simp
  next
    case (Cons f rest)
    obtain stat b st1 where e: "(stat, b, st1) =
        execFieldSelection r c s (f\<lparr>out := ''''\<rparr>)
          (Some (PathSegment path (Key (Alias (field f))))) True st"
      by (metis prod_cases3)
    from 3(1)[OF Cons] e[symmetric] have a: "extends st st1" by simp
    show ?thesis
    proof (cases stat)
      case Normal
      from 3(2)[OF Cons e Normal refl]
      have "extends st1 (snd (snd (serialFields r c s path rest st1)))" .
      with a have "extends st (snd (snd (serialFields r c s path rest st1)))"
        by (rule extends_trans)
      with Cons e[symmetric] Normal show ?thesis
        by (subst serialFields.simps) (auto split: prod.splits)
    next
      case (Panic pv)
      with Cons e[symmetric] a show ?thesis by (subst serialFields.simps) simp
    next
      case Hang
      with Cons e[symmetric] a show ?thesis by (subst serialFields.simps) simp
    qed
  qed
next
  case (4 r c s f path applyLimiter st)
  show ?case
  proof (cases "applyLimiter \<and> Limiter r = 0")
    case True
    then show ?thesis by (subst execFieldSelection.simps) simp
  next
    case False
    obtain tc res err st1 where e: "(tc, res, err, st1) =
        resolveField r c (traceField r c (field f)) f path (startSpan (field f) st)"
      by (metis prod_cases4)
    from extends_resolveField[OF e[symmetric]] extends_startSpan[OF extends_refl, of st "field f"]
    have a: "extends st st1" by (rule extends_trans[rotated])
    show ?thesis
    proof (cases err)
      case (Some er)
      with False e[symmetric] a show ?thesis
        by (subst execFieldSelection.simps) (simp add: extends_finish extends_AddError)
    next
      case None
      from 4[OF False e refl refl None]
      have "extends st1 (snd (snd (execSelectionSet r tc (sels f) (Type (field f)) path s res (out f) st1)))" .
      with a have "extends st (snd (snd (execSelectionSet r tc (sels f) (Type (field f)) path s res (out f) st1)))"
        by (rule extends_trans)
      with False e[symmetric] None show ?thesis
        by (subst execFieldSelection.simps) (auto simp: extends_finish split: prod.splits)
    qed
  qed
next
  case (5 r c ss ty path s res buf st)
  obtain t nn where u: "(t, nn) = unwrapNonNull ty" by (metis prod.exhaust)
  show ?case
  proof (cases "res = Invalid \<or> res = NilRef")
    case True
    with u[symmetric] show ?thesis
      by (subst execSelectionSet.simps) (simp add: extends_AddError)
  next
    case False
    show ?thesis
    proof (cases t)
      case (NonNull t')
      with u[symmetric] False show ?thesis by (subst execSelectionSet.simps) simp
    next
      case (ListOf ofType)
      from 5(1)[OF u False ListOf] u[symmetric] False ListOf show ?thesis
        by (subst execSelectionSet.simps) simp
    next
      case (ObjectTypeDefinition n)
      from 5(2)[OF u False ObjectTypeDefinition] u[symmetric] False ObjectTypeDefinition show ?thesis
        by (subst execSelectionSet.simps) simp
    next
      case (InterfaceTypeDefinition n)
      from 5(3)[OF u False InterfaceTypeDefinition] u[symmetric] False InterfaceTypeDefinition show ?thesis
        by (subst execSelectionSet.simps) simp
    next
      case (UnionDefinition n)
      from 5(4)[OF u False UnionDefinition] u[symmetric] False UnionDefinition show ?thesis
        by (subst execSelectionSet.simps) simp
    next
      case (ScalarTypeDefinition n)
      with u[symmetric] False show ?thesis
        by (subst execSelectionSet.simps) (simp split: sum.splits)
    next
      case (EnumTypeDefinition n vs)
      with u[symmetric] False show ?thesis
        by (subst execSelectionSet.simps) (simp add: extends_AddError)
    next
      case (InputObject n)
      with u[symmetric] False show ?thesis by (subst execSelectionSet.simps) simp
    qed
  qed
next
  case (6 r c ss ofType path s res buf st)
  show ?case
  proof (cases "listValues res")
    case (Inr vs)
    show ?thesis
    proof (cases "HasAsyncSel ss")
      case True
      show ?thesis
      proof (cases "0 < length vs \<and> Limiter r = 0")
        case h: True
        with Inr True show ?thesis by (subst execList.simps) simp
      next
        case h: False
        from 6(1)[OF Inr True h] Inr True h show ?thesis
          by (subst execList.simps) (auto split: prod.splits status.splits)
      qed
    next
      case False
      from 6(2)[OF Inr False] Inr False show ?thesis
        by (subst execList.simps) (auto split: prod.splits status.splits)
    qed
  next
    case (Inl pv)
    then show ?thesis by (subst execList.simps) simp
  qed
next
  case (7 r c ss ofType path s vs ord entryouts st)
  show ?case
  proof (cases ord)
    case Nil
    then show ?thesis by (subst goEntries.simps) simp
  next
    case (Cons i rest)
    show ?thesis
    proof (cases "i < length vs")
      case False
      from 7(4)[OF Cons False] Cons False show ?thesis
        by (subst goEntries.simps) simp
    next
      case True
      obtain stat b st1 where e: "(stat, b, st1) =
          execSelectionSet r c ss ofType (Some (PathSegment path (Index i))) s (vs ! i) (entryouts ! i) st"
        by (metis prod_cases3)
      from 7(1)[OF Cons True] e[symmetric] have a: "extends st st1" by simp
      show ?thesis
      proof (cases stat)
        case Normal
        from 7(2)[OF Cons True e Normal refl]
        have "extends st1 (snd (snd (goEntries r c ss ofType path s vs rest (entryouts[i := b]) st1)))" .
        with a have "extends st (snd (snd (goEntries r c ss ofType path s vs rest (entryouts[i := b]) st1)))"
          by (rule extends_trans)
        with Cons True e[symmetric] Normal show ?thesis
          by (subst goEntries.simps) simp
      next
        case (Panic pv)
        from 7(3)[OF Cons True e Panic refl]
        have "extends (handlePanic r c pv st1)
                (snd (snd (goEntries r c ss ofType path s vs rest (entryouts[i := b]) (handlePanic r c pv st1))))" .
        with extends_handlePanic[OF a, of r c pv]
        have "extends st (snd (snd (goEntries r c ss ofType path s vs rest (entryouts[i := b]) (handlePanic r c pv st1))))"
          by (rule extends_trans)
        with Cons True e[symmetric] Panic show ?thesis
          by (subst goEntries.simps) simp
      next
        case Hang
        with Cons True e[symmetric] a show ?thesis
          by (subst goEntries.simps) simp
      qed
    qed
  qed
next
  case (8 r c ss ofType path s i vs st)
  show ?case
  proof (cases vs)
    case Nil
    then show ?thesis by (subst serialEntries.simps) simp
  next
    case (Cons v rest)
    obtain stat b st1 where e: "(stat, b, st1) =
        execSelectionSet r c ss ofType (Some (PathSegment path (Index i))) s v '''' st"
      by (metis prod_cases3)
    from 8(1)[OF Cons] e[symmetric] have a: "extends st st1" by simp
    show ?thesis
    proof (cases stat)
      case Normal
      from 8(2)[OF Cons e Normal refl]
      have "extends st1 (snd (snd (serialEntries r c ss ofType path s (Suc i) rest st1)))" .
      with a have "extends st (snd (snd (serialEntries r c ss ofType path s (Suc i) rest st1)))"
        by (rule extends_trans)
      with Cons e[symmetric] Normal show ?thesis
        by (subst serialEntries.simps) (auto split: prod.splits)
    next
      case (Panic pv)
      with Cons e[symmetric] a show ?thesis by (subst serialEntries.simps) simp
    next
      case Hang
      with Cons e[symmetric] a show ?thesis by (subst serialEntries.simps) simp
    qed
  qed
qed

section \<open>The engine returns\<close>

text \<open>
  A call blocks for ever only on a limiter without capacity: with a capacity every
  function of the engine returns or panics, and \<^verbatim>\<open>Execute\<close> returns.
\<close>

lemma exec_returns:
  shows "0 < Limiter r \<Longrightarrow> fst (execSelections r c ss path s res buf serially st) \<noteq> Hang"
    and "0 < Limiter r \<Longrightarrow> fst (goFields r c s path ord fs st) \<noteq> Hang"
    and "0 < Limiter r \<Longrightarrow> fst (serialFields r c s path fs st) \<noteq> Hang"
    and "0 < Limiter r \<Longrightarrow> fst (execFieldSelection r c s f path applyLimiter st) \<noteq> Hang"
    and "0 < Limiter r \<Longrightarrow> fst (execSelectionSet r c ss ty path s res buf st) \<noteq> Hang"
    and "0 < Limiter r \<Longrightarrow> fst (execList r c ss ofType path s res buf st) \<noteq> Hang"
    and "0 < Limiter r \<Longrightarrow> fst (goEntries r c ss ofType path s vs ord entryouts st) \<noteq> Hang"
    and "0 < Limiter r \<Longrightarrow> fst (serialEntries r c ss ofType path s i vs st) \<noteq> Hang"
proof (induct r c ss path s res buf serially st
         and r c s path ord fs st
         and r c s path fs st
         and r c s f path applyLimiter st
         and r c ss ty path s res buf st
         and r c ss ofType path s res buf st
         and r c ss ofType path s vs ord entryouts st
         and r c ss ofType path s i vs st
       rule: execSelections_goFields_serialFields_execFieldSelection_execSelectionSet_execList_goEntries_serialEntries.induct)
  case (1 r c ss path s res buf serially st)
  show ?case
  proof (cases "collectFieldsToResolve r ss s res ([], Map.empty)")
    case (Inl pv)
    then show ?thesis by (subst execSelections.simps) simp
  next
    case (Inr b)
    obtain fs m where b: "(fs, m) = b" by (cases b) auto
    show ?thesis
    proof (cases "\<not> serially \<and> HasAsyncSel ss")
      case True
      from "1.hyps"(1)[OF Inr b True "1.prems"] Inr b[symmetric] True show ?thesis
        by (subst execSelections.simps) (auto split: prod.splits status.splits)
    next
      case False
      from "1.hyps"(2)[OF Inr b False "1.prems"] Inr b[symmetric] False show ?thesis
        by (subst execSelections.simps) (auto split: prod.splits status.splits)
    qed
  qed
next
  case (2 r c s path ord fs st)
  show ?case
  proof (cases ord)
    case Nil
    then show ?thesis by (subst goFields.simps) simp
  next
    case (Cons i rest)
    show ?thesis
    proof (cases "i < length fs")
      case False
      from "2.hyps"(4)[OF Cons False "2.prems"] Cons False show ?thesis
        by (subst goFields.simps) simp
    next
      case True
      obtain stat b st1 where e: "(stat, b, st1) =
          execFieldSelection r c s ((fs ! i)\<lparr>out := ''''\<rparr>)
            (Some (PathSegment path (Key (Alias (field (fs ! i)))))) True st"
        by (metis prod_cases3)
      from "2.hyps"(1)[OF Cons True "2.prems"] e[symmetric] have nh: "stat \<noteq> Hang" by simp
      show ?thesis
      proof (cases stat)
        case Normal
        from "2.hyps"(2)[OF Cons True e Normal refl "2.prems"] Cons True e[symmetric] Normal show ?thesis
          by (subst goFields.simps) simp
      next
        case (Panic pv)
        from "2.hyps"(3)[OF Cons True e Panic refl "2.prems"] Cons True e[symmetric] Panic show ?thesis
          by (subst goFields.simps) simp
      next
        case Hang
        with nh show ?thesis by simp
      qed
    qed
  qed
next
  case (3 r c s path fs st)
  show ?case
  proof (cases fs)
    case Nil
    then show ?thesis by (subst serialFields.simps) simp
  next
    case (Cons f rest)
    obtain stat b st1 where e: "(stat, b, st1) =
        execFieldSelection r c s (f\<lparr>out := ''''\<rparr>)
          (Some (PathSegment path (Key (Alias (field f))))) True st"
      by (metis prod_cases3)
    from "3.hyps"(1)[OF Cons "3.prems"] e[symmetric] have nh: "stat \<noteq> Hang" by simp
    show ?thesis
    proof (cases stat)
      case Normal
      from "3.hyps"(2)[OF Cons e Normal refl "3.prems"] Cons e[symmetric] Normal show ?thesis
        by (subst serialFields.simps) (auto split: prod.splits)
    next
      case (Panic pv)
      with Cons e[symmetric] show ?thesis by (subst serialFields.simps) simp
    next
      case Hang
      with nh show ?thesis by simp
    qed
  qed
next
  case (4 r c s f path applyLimiter st)
  from "4.prems" have l: "\<not> (applyLimiter \<and> Limiter r = 0)" by simp
  obtain tc res err st1 where e: "(tc, res, err, st1) =
      resolveField r c (traceField r c (field f)) f path (startSpan (field f) st)"
    by (metis prod_cases4)
  show ?case
  proof (cases err)
    case (Some er)
    with l e[symmetric] show ?thesis
      by (subst execFieldSelection.simps) auto
  next
    case None
    from "4.hyps"[OF l e refl refl None "4.prems"] l e[symmetric] None show ?thesis
      by (subst execFieldSelection.simps) (auto split: prod.splits)
  qed
next
  case (5 r c ss ty path s res buf st)
  obtain t nn where u: "(t, nn) = unwrapNonNull ty" by (metis prod.exhaust)
  show ?case
  proof (cases "res = Invalid \<or> res = NilRef")
    case True
    with u[symmetric] show ?thesis by (subst execSelectionSet.simps) simp
  next
    case False
    show ?thesis
    proof (cases t)
      case (NonNull t')
      with u[symmetric] False show ?thesis by (subst execSelectionSet.simps) simp
    next
      case (ListOf ofType)
      from "5.hyps"(1)[OF u False ListOf "5.prems"] u[symmetric] False ListOf show ?thesis
        by (subst execSelectionSet.simps) simp
    next
      case (ObjectTypeDefinition n)
      from "5.hyps"(2)[OF u False ObjectTypeDefinition "5.prems"] u[symmetric] False ObjectTypeDefinition
      show ?thesis by (subst execSelectionSet.simps) simp
    next
      case (InterfaceTypeDefinition n)
      from "5.hyps"(3)[OF u False InterfaceTypeDefinition "5.prems"] u[symmetric] False InterfaceTypeDefinition
      show ?thesis by (subst execSelectionSet.simps) simp
    next
      case (UnionDefinition n)
      from "5.hyps"(4)[OF u False UnionDefinition "5.prems"] u[symmetric] False UnionDefinition
      show ?thesis by (subst execSelectionSet.simps) simp
    next
      case (ScalarTypeDefinition n)
      with u[symmetric] False show ?thesis
        by (subst execSelectionSet.simps) (simp split: sum.splits)
    next
      case (EnumTypeDefinition n vs)
      with u[symmetric] False show ?thesis by (subst execSelectionSet.simps) simp
    next
      case (InputObject n)
      with u[symmetric] False show ?thesis by (subst execSelectionSet.simps) simp
    qed
  qed
next
  case (6 r c ss ofType path s res buf st)
  show ?case
  proof (cases "listValues res")
    case (Inr vs)
    from "6.prems" have h: "\<not> (0 < length vs \<and> Limiter r = 0)" by simp
    show ?thesis
    proof (cases "HasAsyncSel ss")
      case True
      from "6.hyps"(1)[OF Inr True h "6.prems"] Inr True h show ?thesis
        by (subst execList.simps) (auto split: prod.splits status.splits)
    next
      case False
      from "6.hyps"(2)[OF Inr False "6.prems"] Inr False show ?thesis
        by (subst execList.simps) (auto split: prod.splits status.splits)
    qed
  next
    case (Inl pv)
    then show ?thesis by (subst execList.simps) simp
  qed
next
  case (7 r c ss ofType path s vs ord entryouts st)
  show ?case
  proof (cases ord)
    case Nil
    then show ?thesis by (subst goEntries.simps) simp
  next
    case (Cons i rest)
    show ?thesis
    proof (cases "i < length vs")
      case False
      from "7.hyps"(4)[OF Cons False "7.prems"] Cons False show ?thesis
        by (subst goEntries.simps) simp
    next
      case True
      obtain stat b st1 where e: "(stat, b, st1) =
          execSelectionSet r c ss ofType (Some (PathSegment path (Index i))) s (vs ! i) (entryouts ! i) st"
        by (metis prod_cases3)
      from "7.hyps"(1)[OF Cons True "7.prems"] e[symmetric] have nh: "stat \<noteq> Hang" by simp
      show ?thesis
      proof (cases stat)
        case Normal
        from "7.hyps"(2)[OF Cons True e Normal refl "7.prems"] Cons True e[symmetric] Normal show ?thesis
          by (subst goEntries.simps) simp
      next
        case (Panic pv)
        from "7.hyps"(3)[OF Cons True e Panic refl "7.prems"] Cons True e[symmetric] Panic show ?thesis
          by (subst goEntries.simps) simp
      next
        case Hang
        with nh show ?thesis by simp
      qed
    qed
  qed
next
  case (8 r c ss ofType path s i vs st)
  show ?case
  proof (cases vs)
    case Nil
    then show ?thesis by (subst serialEntries.simps) simp
  next
    case (Cons v rest)
    obtain stat b st1 where e: "(stat, b, st1) =
        execSelectionSet r c ss ofType (Some (PathSegment path (Index i))) s v '''' st"
      by (metis prod_cases3)
    from "8.hyps"(1)[OF Cons "8.prems"] e[symmetric] have nh: "stat \<noteq> Hang" by simp
    show ?thesis
    proof (cases stat)
      case Normal
      from "8.hyps"(2)[OF Cons e Normal refl "8.prems"] Cons e[symmetric] Normal show ?thesis
        by (subst serialEntries.simps) (auto split: prod.splits)
    next
      case (Panic pv)
      with Cons e[symmetric] show ?thesis by (subst serialEntries.simps) simp
    next
      case Hang
      with nh show ?thesis by simp
    qed
  qed
qed

lemma Execute_returns:
  assumes "0 < Limiter r"
  shows "Execute r c s opType ApplyOperation validateSelections st \<noteq> None"
proof -
  have "fst (executeBody r c s opType ApplyOperation validateSelections st) \<noteq> Hang"
  proof (cases ApplyOperation)
    case (Inl pv)
    then show ?thesis by (simp add: executeBody_def)
  next
    case (Inr ss)
    show ?thesis
    proof (cases "rootResolver s opType")
      case None
      with Inr show ?thesis by (simp add: executeBody_def)
    next
      case (Some res)
      show ?thesis
      proof (cases "validateSelections ss")
        case v: (Some errs)
        with Inr Some show ?thesis by (simp add: executeBody_def)
      next
        case None
        with Inr Some exec_returns(1)[OF assms, of c ss None s res "''''" "opType = Mutation" st]
        show ?thesis by (simp add: executeBody_def)
      qed
    qed
  qed
  moreover obtain stat b st' where
    e: "executeBody r c s opType ApplyOperation validateSelections st = (stat, b, st')"
    by (metis prod_cases3)
  ultimately have "stat \<noteq> Hang" by simp
  then show ?thesis unfolding Execute_def e by (cases stat) simp_all
qed

section \<open>What the writing loops are given\<close>

lemma writeFieldsFrom_null:
  "\<exists>f\<in>set fs. isNonNull (Type (field f)) \<and> out f = ''null'' \<Longrightarrow> writeFieldsFrom i fs buf = ''null''"
  by (induction fs arbitrary: i buf) (auto simp: resolvedToNull_def)


lemma execSelections_Normal:
  assumes "execSelections r c ss path s res buf serially st = (Normal, b, st')"
  shows "\<exists>fs m fs'. collectFieldsToResolve r ss s res ([], Map.empty) = Inr (fs, m)
           \<and> runFields r c s path (\<not> serially \<and> HasAsyncSel ss) fs st = (Normal, fs', st')
           \<and> b = writeFields fs' buf"
  using assms
  by (subst (asm) execSelections.simps)
     (auto simp: runFields_def split: sum.splits prod.splits status.splits if_splits)


lemma execSelectionSet_nil:
  assumes "res = Invalid \<or> res = NilRef"
  shows "execSelectionSet r c ss (NonNull t) path s res buf st =
           (Normal, buf @ ''null'', AddError (gotNil t path) st)"
  using assms by (subst execSelectionSet.simps) auto

section \<open>The order of the response keys\<close>

lemma newAliases_append:
  "newAliases seen (xs @ ys) = newAliases seen xs @ newAliases (seen \<union> set xs) ys"
proof (induction xs arbitrary: seen)
  case Nil
  then show ?case by simp
next
  case (Cons a xs)
  have "insert a (seen \<union> set xs) = insert a seen \<union> set xs" by auto
  moreover have "a \<in> seen \<Longrightarrow> insert a (seen \<union> set xs) = seen \<union> set xs" by auto
  ultimately show ?case using Cons.IH by auto
qed

lemma set_newAliases: "set (newAliases seen xs) = set xs - seen"
  by (induction xs arbitrary: seen) auto

lemma distinct_newAliases: "distinct (newAliases seen xs)"
  by (induction xs arbitrary: seen) (auto simp: set_newAliases)

lemma mergedSels_append: "mergedSels a (xs @ ys) = mergedSels a xs @ mergedSels a ys"
  by (simp add: mergedSels_def)

lemma mergedSels_absent: "a \<notin> fst ` set occs \<Longrightarrow> mergedSels a occs = []"
  by (induction occs) (auto simp: mergedSels_def)

lemma wellIndexed_empty: "wellIndexed [] Map.empty"
  by (simp add: wellIndexed_def)

lemma wellIndexed_lookup:
  "wellIndexed fs m \<Longrightarrow> m a = None \<longleftrightarrow> a \<notin> set (map aliasOf fs)"
proof -
  assume w: "wellIndexed fs m"
  show ?thesis
  proof
    assume n: "m a = None"
    show "a \<notin> set (map aliasOf fs)"
    proof
      assume "a \<in> set (map aliasOf fs)"
      then obtain i where "i < length fs" "aliasOf (fs ! i) = a"
        by (auto simp: in_set_conv_nth)
      with w have "m a = Some i" by (simp add: wellIndexed_def)
      with n show False by simp
    qed
  next
    assume n: "a \<notin> set (map aliasOf fs)"
    show "m a = None"
    proof (cases "m a")
      case None
      then show ?thesis .
    next
      case (Some i)
      with w have "i < length fs \<and> aliasOf (fs ! i) = a" by (simp add: wellIndexed_def)
      then have "a \<in> aliasOf ` set fs" using nth_mem[of i fs] by blast
      with n show ?thesis by simp
    qed
  qed
qed

lemma wellIndexed_add:
  assumes "wellIndexed fs m" and "m (aliasOf f) = None"
  shows "wellIndexed (fs @ [f]) (m(aliasOf f \<mapsto> length fs))"
proof -
  from assms have n: "aliasOf f \<notin> set (map aliasOf fs)" by (simp add: wellIndexed_lookup)
  have d: "distinct (map aliasOf (fs @ [f]))" using assms(1) n by (simp add: wellIndexed_def)
  have "(m(aliasOf f \<mapsto> length fs)) a = Some i \<longleftrightarrow> (i < length (fs @ [f]) \<and> aliasOf ((fs @ [f]) ! i) = a)" for a i
  proof (cases "a = aliasOf f")
    case True
    show ?thesis
    proof (cases "i < length fs")
      case l: True
      then have "aliasOf (fs ! i) \<in> aliasOf ` set fs" using nth_mem[of i fs] by blast
      with n have "aliasOf (fs ! i) \<noteq> aliasOf f" by auto
      with True l show ?thesis by (auto simp: nth_append)
    next
      case False
      with True show ?thesis by (auto simp: nth_append)
    qed
  next
    case False
    with assms(1) show ?thesis
      by (auto simp: wellIndexed_def nth_append less_Suc_eq)
  qed
  with d show ?thesis by (simp add: wellIndexed_def)
qed

lemma aliasOf_sels_update:
  "map aliasOf (fs[i := (fs ! i)\<lparr>sels := x\<rparr>]) = map aliasOf fs"
proof (induction fs arbitrary: i)
  case Nil
  then show ?case by simp
next
  case (Cons f fs)
  then show ?case by (cases i) (simp_all add: aliasOf_def)
qed

lemma wellIndexed_merge:
  assumes "wellIndexed fs m"
  shows "wellIndexed (fs[i := (fs ! i)\<lparr>sels := x\<rparr>]) m"
proof -
  let ?fs = "fs[i := (fs ! i)\<lparr>sels := x\<rparr>]"
  have a: "map aliasOf ?fs = map aliasOf fs" by (rule aliasOf_sels_update)
  have "aliasOf (?fs ! j) = aliasOf (fs ! j)" if "j < length fs" for j
  proof -
    from that have "map aliasOf ?fs ! j = aliasOf (?fs ! j)" by simp
    moreover from that have "map aliasOf fs ! j = aliasOf (fs ! j)" by simp
    ultimately show ?thesis using a by simp
  qed
  with a assms show ?thesis by (auto simp: wellIndexed_def)
qed

lemma collectedFrom_nothing: "collectedFrom fs0 [] fs0"
  by (simp add: collectedFrom_def mergedSels_def)

lemma collectedFrom_new:
  assumes "aliasOf f \<notin> set (map aliasOf fs0)"
  shows "collectedFrom fs0 [(aliasOf f, sels f)] (fs0 @ [f])"
proof -
  have "sels ((fs0 @ [f]) ! i) =
          (if i < length fs0 then sels (fs0 ! i) else []) @ mergedSels (aliasOf ((fs0 @ [f]) ! i)) [(aliasOf f, sels f)]"
    if "i < length (fs0 @ [f])" for i
  proof (cases "i < length fs0")
    case True
    then have "aliasOf (fs0 ! i) \<in> aliasOf ` set fs0" using nth_mem[of i fs0] by blast
    with assms have "aliasOf (fs0 ! i) \<noteq> aliasOf f" by auto
    with True show ?thesis by (simp add: nth_append mergedSels_def)
  next
    case False
    with that have "i = length fs0" by simp
    then show ?thesis by (simp add: mergedSels_def)
  qed
  with assms show ?thesis by (simp add: collectedFrom_def)
qed

lemma collectedFrom_merge:
  assumes "distinct (map aliasOf fs0)" and "i < length fs0" and "aliasOf (fs0 ! i) = a"
  shows "collectedFrom fs0 [(a, ss)] (fs0[i := (fs0 ! i)\<lparr>sels := sels (fs0 ! i) @ ss\<rparr>])"
proof -
  let ?fs = "fs0[i := (fs0 ! i)\<lparr>sels := sels (fs0 ! i) @ ss\<rparr>]"
  have al: "map aliasOf ?fs = map aliasOf fs0" by (rule aliasOf_sels_update)
  have a: "a \<in> set (map aliasOf fs0)" using assms(2,3) nth_mem[of i fs0] by auto
  have "sels (?fs ! j) = (if j < length fs0 then sels (fs0 ! j) else []) @ mergedSels (aliasOf (?fs ! j)) [(a, ss)]"
    if "j < length ?fs" for j
  proof (cases "j = i")
    case True
    with assms(2,3) show ?thesis by (simp add: mergedSels_def aliasOf_def)
  next
    case False
    from that have j: "j < length fs0" by simp
    from nth_eq_iff_index_eq[OF assms(1), of j i] j assms(2) False
    have "aliasOf (fs0 ! j) \<noteq> aliasOf (fs0 ! i)" by simp
    with assms(3) have "aliasOf (fs0 ! j) \<noteq> a" by simp
    with False j show ?thesis by (simp add: mergedSels_def)
  qed
  with al a show ?thesis by (simp add: collectedFrom_def)
qed

lemma collectedFrom_trans:
  assumes "collectedFrom fs0 o1 fs1" and "collectedFrom fs1 o2 fs"
  shows "collectedFrom fs0 (o1 @ o2) fs"
proof -
  let ?S0 = "set (map aliasOf fs0)"
  let ?N1 = "newAliases ?S0 (map fst o1)"
  from assms(1) have a1: "map aliasOf fs1 = map aliasOf fs0 @ ?N1"
    by (simp add: collectedFrom_def)
  from assms(2) have a2: "map aliasOf fs = map aliasOf fs1 @ newAliases (set (map aliasOf fs1)) (map fst o2)"
    by (simp add: collectedFrom_def)
  have s1: "set (map aliasOf fs1) = ?S0 \<union> set (map fst o1)"
    using a1 set_newAliases[of ?S0 "map fst o1"] by (metis Un_Diff_cancel set_append)
  have al: "map aliasOf fs = map aliasOf fs0 @ newAliases ?S0 (map fst (o1 @ o2))"
    using a1 a2 s1 by (simp add: newAliases_append)
  have l1: "length fs0 \<le> length fs1" using a1 by (metis length_append length_map le_add1)
  have l2: "length fs1 \<le> length fs" using a2 by (metis length_append length_map le_add1)
  have pre: "aliasOf (fs ! i) = aliasOf (fs1 ! i)" if "i < length fs1" for i
  proof -
    from that l2 have "map aliasOf fs ! i = aliasOf (fs ! i)" by simp
    moreover from that have "(map aliasOf fs1 @ newAliases (set (map aliasOf fs1)) (map fst o2)) ! i = aliasOf (fs1 ! i)"
      by (simp add: nth_append)
    ultimately show ?thesis using a2 by simp
  qed
  have "sels (fs ! i) = (if i < length fs0 then sels (fs0 ! i) else []) @ mergedSels (aliasOf (fs ! i)) (o1 @ o2)"
    if i: "i < length fs" for i
  proof (cases "i < length fs1")
    case True
    from assms(2) i True have "sels (fs ! i) = sels (fs1 ! i) @ mergedSels (aliasOf (fs ! i)) o2"
      by (simp add: collectedFrom_def)
    moreover from assms(1) True have "sels (fs1 ! i) =
        (if i < length fs0 then sels (fs0 ! i) else []) @ mergedSels (aliasOf (fs1 ! i)) o1"
      by (simp add: collectedFrom_def)
    ultimately show ?thesis using pre[OF True] by (simp add: mergedSels_append)
  next
    case False
    with l1 have n0: "\<not> i < length fs0" by simp
    from assms(2) i False have s: "sels (fs ! i) = mergedSels (aliasOf (fs ! i)) o2"
      by (simp add: collectedFrom_def)
    have "map aliasOf fs ! i = newAliases (set (map aliasOf fs1)) (map fst o2) ! (i - length fs1)"
      using a2 False by (simp add: nth_append)
    moreover have "i - length fs1 < length (newAliases (set (map aliasOf fs1)) (map fst o2))"
      using a2 i False by (metis add_diff_inverse_nat length_append length_map nat_add_left_cancel_less)
    ultimately have "map aliasOf fs ! i \<in> set (newAliases (set (map aliasOf fs1)) (map fst o2))"
      by (metis nth_mem)
    then have "aliasOf (fs ! i) \<notin> set (map aliasOf fs1)"
      using i by (simp add: set_newAliases)
    with s1 have "aliasOf (fs ! i) \<notin> fst ` set o1" by simp
    then have "mergedSels (aliasOf (fs ! i)) o1 = []" by (rule mergedSels_absent)
    with s n0 show ?thesis by (simp add: mergedSels_append)
  qed
  with al show ?thesis by (simp add: collectedFrom_def)
qed

lemma wellIndexed_member:
  "wellIndexed fs m \<Longrightarrow> m a = Some i \<Longrightarrow> i < length fs \<and> aliasOf (fs ! i) = a"
  by (simp add: wellIndexed_def)

lemma collect_spec:
  "collectFieldsToResolve r ss s res acc = Inr acc' \<Longrightarrow> wellIndexed (fst acc) (snd acc) \<Longrightarrow>
   wellIndexed (fst acc') (snd acc') \<and> collectedFrom (fst acc) (aliasSequence r res ss) (fst acc')"
proof (induction r ss s res acc arbitrary: acc' rule: collectFieldsToResolve.induct)
  case (1 r s res acc)
  then show ?case by (simp add: collectedFrom_nothing)
next
  case (2 r sel ss rest s res fs fieldByAlias)
  let ?a = "Alias sel"
  show ?case
  proof (cases "fieldByAlias ?a")
    case None
    let ?f = "\<lparr>field = sel, sels = ss, resolver = res, out = ''''\<rparr>"
    have af: "aliasOf ?f = ?a" by (simp add: aliasOf_def)
    from 2(4) None have n: "?a \<notin> set (map aliasOf fs)" by (simp add: wellIndexed_lookup)
    from 2(4) None af have w: "wellIndexed (fs @ [?f]) (fieldByAlias(?a \<mapsto> length fs))"
      using wellIndexed_add[of fs fieldByAlias ?f] by simp
    from 2(3) None have c: "collectFieldsToResolve r rest s res (fs @ [?f], fieldByAlias(?a \<mapsto> length fs)) = Inr acc'"
      by simp
    from w have "wellIndexed (fst (fs @ [?f], fieldByAlias(?a \<mapsto> length fs))) (snd (fs @ [?f], fieldByAlias(?a \<mapsto> length fs)))"
      by simp
    from 2(1)[OF None c this]
    have ih: "wellIndexed (fst acc') (snd acc')" "collectedFrom (fs @ [?f]) (aliasSequence r res rest) (fst acc')"
      by simp_all
    from n af have "collectedFrom fs [(?a, ss)] (fs @ [?f])"
      using collectedFrom_new[of ?f fs] by simp
    from collectedFrom_trans[OF this ih(2)] ih(1) show ?thesis by simp
  next
    case (Some i)
    let ?fs = "fs[i := (fs ! i)\<lparr>sels := sels (fs ! i) @ ss\<rparr>]"
    from 2(4) Some have i: "i < length fs" "aliasOf (fs ! i) = ?a"
      using wellIndexed_member[of fs fieldByAlias ?a i] by simp_all
    from 2(4) have d: "distinct (map aliasOf fs)" by (simp add: wellIndexed_def)
    from 2(4) have w: "wellIndexed ?fs fieldByAlias" using wellIndexed_merge[of fs fieldByAlias] by simp
    from 2(3) Some have c: "collectFieldsToResolve r rest s res (?fs, fieldByAlias) = Inr acc'" by simp
    from w have "wellIndexed (fst (?fs, fieldByAlias)) (snd (?fs, fieldByAlias))" by simp
    from 2(2)[OF Some c this]
    have ih: "wellIndexed (fst acc') (snd acc')" "collectedFrom ?fs (aliasSequence r res rest) (fst acc')"
      by simp_all
    from collectedFrom_trans[OF collectedFrom_merge[OF d i, of ss] ih(2)] ih(1) show ?thesis by simp
  qed
next
  case (3 r al name tas rest s res fs fieldByAlias)
  show ?case
  proof (cases "fieldByAlias al")
    case None
    show ?thesis
    proof (cases "typeOf r name tas res")
      case (Inl pv)
      with None 3(3) show ?thesis by simp
    next
      case (Inr tn)
      let ?f = "\<lparr>field = typenameField s al tn, sels = [], resolver = res, out = ''''\<rparr>"
      have af: "aliasOf ?f = al" by (simp add: aliasOf_def typenameField_def)
      from 3(4) None have n: "al \<notin> set (map aliasOf fs)" by (simp add: wellIndexed_lookup)
      from 3(4) None af have w: "wellIndexed (fs @ [?f]) (fieldByAlias(al \<mapsto> length fs))"
        using wellIndexed_add[of fs fieldByAlias ?f] by simp
      from 3(3) None Inr have c: "collectFieldsToResolve r rest s res (fs @ [?f], fieldByAlias(al \<mapsto> length fs)) = Inr acc'"
        by simp
      from w have "wellIndexed (fst (fs @ [?f], fieldByAlias(al \<mapsto> length fs))) (snd (fs @ [?f], fieldByAlias(al \<mapsto> length fs)))"
        by simp
      from 3(1)[OF None Inr c this]
      have ih: "wellIndexed (fst acc') (snd acc')" "collectedFrom (fs @ [?f]) (aliasSequence r res rest) (fst acc')"
        by simp_all
      from n af have "collectedFrom fs [(al, [])] (fs @ [?f])"
        using collectedFrom_new[of ?f fs] by simp
      from collectedFrom_trans[OF this ih(2)] ih(1) show ?thesis by simp
    qed
  next
    case (Some i)
    from 3(4) Some have i: "i < length fs" "aliasOf (fs ! i) = al"
      using wellIndexed_member[of fs fieldByAlias al i] by simp_all
    from 3(4) have d: "distinct (map aliasOf fs)" by (simp add: wellIndexed_def)
    from 3(3) Some have c: "collectFieldsToResolve r rest s res (fs, fieldByAlias) = Inr acc'" by simp
    from 3(2)[OF Some c 3(4)]
    have ih: "wellIndexed (fst acc') (snd acc')" "collectedFrom fs (aliasSequence r res rest) (fst acc')"
      by simp_all
    have "fs[i := (fs ! i)\<lparr>sels := sels (fs ! i) @ []\<rparr>] = fs" by simp
    with collectedFrom_merge[OF d i, of "[]"] have "collectedFrom fs [(al, [])] fs" by simp
    from collectedFrom_trans[OF this ih(2)] ih(1) show ?thesis by simp
  qed
next
  case (4 r mi ss rest s res acc)
  show ?case
  proof (cases "Method r res mi")
    case (MethodPanics pv)
    with 4(4) show ?thesis by simp
  next
    case (MethodReturns v ok)
    show ?thesis
    proof (cases ok)
      case False
      with MethodReturns 4(4) have c: "collectFieldsToResolve r rest s res acc = Inr acc'" by simp
      from 4(1)[OF MethodReturns False c 4(5)] MethodReturns False show ?thesis by simp
    next
      case True
      from MethodReturns True have nn: "\<not> \<not> ok" by simp
      show ?thesis
      proof (cases "collectFieldsToResolve r ss s v acc")
        case (Inl pv)
        with MethodReturns True 4(4) show ?thesis by simp
      next
        case (Inr acc1)
        from 4(2)[OF MethodReturns nn Inr 4(5)]
        have ih1: "wellIndexed (fst acc1) (snd acc1)" "collectedFrom (fst acc) (aliasSequence r v ss) (fst acc1)"
          by simp_all
        from MethodReturns True Inr 4(4)
        have c: "collectFieldsToResolve r rest s res acc1 = Inr acc'" by simp
        from 4(3)[OF MethodReturns nn Inr c ih1(1)]
        have ih2: "wellIndexed (fst acc') (snd acc')" "collectedFrom (fst acc1) (aliasSequence r res rest) (fst acc')"
          by simp_all
        from collectedFrom_trans[OF ih1(2) ih2(2)] ih2(1) MethodReturns True show ?thesis by simp
      qed
    qed
  qed
qed

lemma commaJoin_Cons: "commaJoin (x # xs) = x @ concat (map (\<lambda>y. '','' @ y) xs)"
  by (induction xs arbitrary: x) auto

lemma writeFieldsFrom_Suc:
  "\<not> (\<exists>f\<in>set fs. isNonNull (Type (field f)) \<and> out f = ''null'') \<Longrightarrow>
   writeFieldsFrom (Suc i) fs buf = buf @ concat (map (\<lambda>f. '','' @ entryText f) fs) @ ''}''"
  by (induction fs arbitrary: i buf) (auto simp: resolvedToNull_def entryText_def)

lemma writeFields_text:
  assumes "\<not> (\<exists>f\<in>set fs. isNonNull (Type (field f)) \<and> out f = ''null'')"
  shows "writeFields fs buf = buf @ objectText (map (\<lambda>f. (aliasOf f, out f)) fs)"
proof (cases fs)
  case Nil
  then show ?thesis by (simp add: writeFields_def objectText_def)
next
  case (Cons f rest)
  with assms have n: "\<not> (\<exists>f\<in>set rest. isNonNull (Type (field f)) \<and> out f = ''null'')"
    and h: "\<not> (isNonNull (Type (field f)) \<and> resolvedToNull (out f))"
    by (auto simp: resolvedToNull_def)
  have m: "map (\<lambda>(k, v). [CHR 0x22] @ k @ [CHR 0x22] @ '':'' @ v) (map (\<lambda>f. (aliasOf f, out f)) xs) = map entryText xs"
    for xs :: "'a fieldToExec list"
    by (simp add: entryText_def aliasOf_def)
  have "writeFields fs buf = writeFieldsFrom (Suc 0) rest ((buf @ ''{'') @ entryText f)"
    using Cons h by (auto simp: writeFields_def entryText_def)
  also have "\<dots> = ((buf @ ''{'') @ entryText f) @ concat (map (\<lambda>f. '','' @ entryText f) rest) @ ''}''"
    by (rule writeFieldsFrom_Suc[OF n])
  also have "\<dots> = buf @ objectText (map (\<lambda>f. (aliasOf f, out f)) fs)"
    unfolding objectText_def m Cons by (simp add: commaJoin_Cons comp_def)
  finally show ?thesis .
qed

lemma same_field_out: "map field (fs[i := (fs ! i)\<lparr>out := b\<rparr>]) = map field fs"
proof (induction fs arbitrary: i)
  case Nil
  then show ?case by simp
next
  case (Cons f fs)
  then show ?case by (cases i) simp_all
qed

lemma goFields_fields:
  "goFields r c s path ord fs st = (stat, fs', st') \<Longrightarrow> map field fs' = map field fs"
proof (induction ord arbitrary: fs st)
  case Nil
  then show ?case by (subst (asm) goFields.simps) simp
next
  case (Cons i rest)
  show ?case
  proof (cases "i < length fs")
    case False
    with Cons.prems have "goFields r c s path rest fs st = (stat, fs', st')"
      by (subst (asm) goFields.simps) simp
    then show ?thesis by (rule Cons.IH)
  next
    case True
    obtain stat1 b st1 where e: "execFieldSelection r c s ((fs ! i)\<lparr>out := ''''\<rparr>)
            (Some (PathSegment path (Key (Alias (field (fs ! i)))))) True st = (stat1, b, st1)"
      by (metis prod_cases3)
    show ?thesis
    proof (cases stat1)
      case Normal
      with Cons.prems True e have "goFields r c s path rest (fs[i := (fs ! i)\<lparr>out := b\<rparr>]) st1 = (stat, fs', st')"
        by (subst (asm) goFields.simps) simp
      from Cons.IH[OF this] show ?thesis by (simp add: same_field_out)
    next
      case (Panic pv)
      with Cons.prems True e
      have "goFields r c s path rest (fs[i := (fs ! i)\<lparr>out := b\<rparr>]) (handlePanic r c pv st1) = (stat, fs', st')"
        by (subst (asm) goFields.simps) simp
      from Cons.IH[OF this] show ?thesis by (simp add: same_field_out)
    next
      case Hang
      with Cons.prems True e have "fs' = fs[i := (fs ! i)\<lparr>out := b\<rparr>]"
        by (subst (asm) goFields.simps) auto
      then show ?thesis by (simp add: same_field_out)
    qed
  qed
qed

lemma serialFields_fields:
  "serialFields r c s path fs st = (stat, fs', st') \<Longrightarrow> map field fs' = map field fs"
proof (induction fs arbitrary: st fs' stat st')
  case Nil
  then show ?case by (subst (asm) serialFields.simps) auto
next
  case (Cons f rest)
  obtain stat1 b st1 where e: "execFieldSelection r c s (f\<lparr>out := ''''\<rparr>)
            (Some (PathSegment path (Key (Alias (field f))))) True st = (stat1, b, st1)"
    by (metis prod_cases3)
  show ?case
  proof (cases stat1)
    case Normal
    obtain stat2 fs2 st2 where r2: "serialFields r c s path rest st1 = (stat2, fs2, st2)"
      by (metis prod_cases3)
    from Cons.prems e Normal r2 have "fs' = f\<lparr>out := b\<rparr> # fs2"
      by (subst (asm) serialFields.simps) auto
    with Cons.IH[OF r2] show ?thesis by simp
  next
    case (Panic pv)
    with Cons.prems e show ?thesis
      by (subst (asm) serialFields.simps) auto
  next
    case Hang
    with Cons.prems e show ?thesis
      by (subst (asm) serialFields.simps) auto
  qed
qed

lemma runFields_fields:
  "runFields r c s path async fs st = (stat, fs', st') \<Longrightarrow> map field fs' = map field fs"
  by (auto simp: runFields_def goFields_fields serialFields_fields split: if_splits)

text \<open>
  Claim C5. When \<^verbatim>\<open>execSelections\<close> returns, the fields it has executed carry, in this
  order, the aliases of the selection set at their first occurrence in the operation
  text; the sub-selections of each field are those of all occurrences of its alias, in
  textual order; and the output is either \<^verbatim>\<open>null\<close> (a non-null field resolved to null)
  or the object whose keys are these aliases in this order.
\<close>

theorem response_keys_follow_first_occurrence:
  assumes "execSelections r c ss path s res buf serially st = (Normal, b, st')"
  shows "\<exists>fs m fs'. collectFieldsToResolve r ss s res ([], Map.empty) = Inr (fs, m)
           \<and> runFields r c s path (\<not> serially \<and> HasAsyncSel ss) fs st = (Normal, fs', st')
           \<and> map field fs' = map field fs
           \<and> map aliasOf fs' = firstOccurrences (map fst (aliasSequence r res ss))
           \<and> (\<forall>i<length fs. sels (fs ! i) = mergedSels (aliasOf (fs ! i)) (aliasSequence r res ss))
           \<and> b = (if \<exists>f\<in>set fs'. isNonNull (Type (field f)) \<and> out f = ''null'' then ''null''
                  else buf @ objectText (map (\<lambda>f. (aliasOf f, out f)) fs'))"
proof -
  from execSelections_Normal[OF assms] obtain fs m fs' where
    f: "collectFieldsToResolve r ss s res ([], Map.empty) = Inr (fs, m)"
       "runFields r c s path (\<not> serially \<and> HasAsyncSel ss) fs st = (Normal, fs', st')"
       "b = writeFields fs' buf"
    by blast
  have "wellIndexed (fst ([], Map.empty)) (snd ([], Map.empty))" by (simp add: wellIndexed_empty)
  from collect_spec[OF f(1) this]
  have c: "collectedFrom [] (aliasSequence r res ss) fs" by simp
  from runFields_fields[OF f(2)] have same: "map field fs' = map field fs" .
  have ao: "aliasOf = Alias \<circ> field" by (rule ext) (simp add: aliasOf_def)
  from same have "map Alias (map field fs') = map Alias (map field fs)" by simp
  then have al: "map aliasOf fs' = map aliasOf fs" unfolding ao by simp
  from c have k: "map aliasOf fs = firstOccurrences (map fst (aliasSequence r res ss))"
    by (simp add: collectedFrom_def firstOccurrences_def)
  from c have m: "\<forall>i<length fs. sels (fs ! i) = mergedSels (aliasOf (fs ! i)) (aliasSequence r res ss)"
    by (simp add: collectedFrom_def)
  have w: "b = (if \<exists>f\<in>set fs'. isNonNull (Type (field f)) \<and> out f = ''null'' then ''null''
                  else buf @ objectText (map (\<lambda>f. (aliasOf f, out f)) fs'))"
  proof (cases "\<exists>f\<in>set fs'. isNonNull (Type (field f)) \<and> out f = ''null''")
    case True
    with f(3) show ?thesis by (simp add: writeFields_def writeFieldsFrom_null)
  next
    case False
    with f(3) writeFields_text[OF False, of buf] show ?thesis by auto
  qed
  from f(1,2) same al k m w show ?thesis by (intro exI conjI) simp_all
qed

theorem response_keys_witness:
  "(\<exists>st'. execSelections exRequest [] heroQuery None exSchema (Ref (Host ''human'')) '''' False exState =
            (Normal, heroText, st'))
   \<and> map fst (aliasSequence exRequest (Ref (Host ''human'')) heroQuery) =
        [''hero'', ''kind'', ''height'', ''hero'', ''hero'']
   \<and> firstOccurrences (map fst (aliasSequence exRequest (Ref (Host ''human'')) heroQuery)) =
        [''hero'', ''kind'', ''height'']
   \<and> (\<exists>fs m. collectFieldsToResolve exRequest heroQuery exSchema (Ref (Host ''human'')) ([], Map.empty) = Inr (fs, m)
         \<and> map aliasOf fs = [''hero'', ''kind'', ''height'']
         \<and> sels (fs ! 0) = [SchemaField nameField [], SchemaField idField []])"
proof -
  let ?res = "Ref (Host ''human'')"
  have e1: "fst (execSelections exRequest [] heroQuery None exSchema ?res '''' False exState) = Normal"
    by (simp add: exec_eval ex_defs heroQuery_def heroField_def nameField_def idField_def heightField_def)
  have e2: "fst (snd (execSelections exRequest [] heroQuery None exSchema ?res '''' False exState)) = heroText"
    by (simp add: exec_eval ex_defs heroQuery_def heroField_def nameField_def idField_def heightField_def
          heroText_def)
  obtain st' where h: "execSelections exRequest [] heroQuery None exSchema ?res '''' False exState =
            (Normal, heroText, st')"
    using e1 e2 by (metis prod.collapse)
  have sq: "map fst (aliasSequence exRequest ?res heroQuery) = [''hero'', ''kind'', ''height'', ''hero'', ''hero'']"
    by (simp add: heroQuery_def exRequest_def heroField_def heightField_def exField_def)
  have fo: "firstOccurrences (map fst (aliasSequence exRequest ?res heroQuery)) = [''hero'', ''kind'', ''height'']"
    unfolding sq by (simp add: firstOccurrences_def)
  have ms: "mergedSels ''hero'' (aliasSequence exRequest ?res heroQuery) =
              [SchemaField nameField [], SchemaField idField []]"
    by (simp add: mergedSels_def heroQuery_def exRequest_def heroField_def heightField_def exField_def)
  from response_keys_follow_first_occurrence[OF h] obtain fs m fs' where
    c: "collectFieldsToResolve exRequest heroQuery exSchema ?res ([], Map.empty) = Inr (fs, m)"
       "map field fs' = map field fs"
       "map aliasOf fs' = firstOccurrences (map fst (aliasSequence exRequest ?res heroQuery))"
       "\<forall>i<length fs. sels (fs ! i) = mergedSels (aliasOf (fs ! i)) (aliasSequence exRequest ?res heroQuery)"
    by blast
  have ao: "aliasOf = Alias \<circ> field" by (rule ext) (simp add: aliasOf_def)
  from c(2) have "map Alias (map field fs') = map Alias (map field fs)" by simp
  then have "map aliasOf fs' = map aliasOf fs" unfolding ao by simp
  with c(3) fo have al: "map aliasOf fs = [''hero'', ''kind'', ''height'']" by simp
  then have l: "length fs = 3" by (metis length_map length_Cons list.size(3) numeral_3_eq_3)
  from al have "map aliasOf fs ! 0 = ''hero''" by simp
  with l have a0: "aliasOf (fs ! 0) = ''hero''" by simp
  from c(4) l have "sels (fs ! 0) = mergedSels (aliasOf (fs ! 0)) (aliasSequence exRequest ?res heroQuery)"
    by simp
  with a0 ms have s0: "sels (fs ! 0) = [SchemaField nameField [], SchemaField idField []]" by simp
  have g1: "\<exists>st'. execSelections exRequest [] heroQuery None exSchema ?res '''' False exState =
            (Normal, heroText, st')"
    using h by (rule exI)
  have g4: "\<exists>fs m. collectFieldsToResolve exRequest heroQuery exSchema ?res ([], Map.empty) = Inr (fs, m)
         \<and> map aliasOf fs = [''hero'', ''kind'', ''height'']
         \<and> sels (fs ! 0) = [SchemaField nameField [], SchemaField idField []]"
    by (rule exI[of _ fs], rule exI[of _ m]) (intro conjI c(1) al s0)
  show ?thesis
    by (intro conjI g1 sq fo g4)
qed

section \<open>Serial execution\<close>

lemma serialFields_inOrder:
  "serialFields r c s path fs st =
     (case inOrder (rootStep r c s path) fs st of
        (stat, bs, st') \<Rightarrow> (stat, map2 (\<lambda>f b. f\<lparr>out := b\<rparr>) fs bs @ drop (length bs) fs, st'))"
proof (induction fs arbitrary: st)
  case Nil
  then show ?case by (subst serialFields.simps) simp
next
  case (Cons f rest)
  obtain stat1 b st1 where e: "rootStep r c s path f st = (stat1, b, st1)"
    by (metis prod_cases3)
  then have e': "execFieldSelection r c s (f\<lparr>out := ''''\<rparr>)
     (Some (PathSegment path (Key (Alias (field f))))) True st = (stat1, b, st1)"
    by (simp add: rootStep_def)
  show ?case
  proof (cases stat1)
    case Normal
    have u: "serialFields r c s path (f # rest) st =
          (case serialFields r c s path rest st1 of (stat, fs', st'') \<Rightarrow> (stat, f\<lparr>out := b\<rparr> # fs', st''))"
      using e' Normal by (subst serialFields.simps) simp
    show ?thesis
      unfolding u using e Normal Cons.IH[of st1]
      by (auto split: prod.splits)
  next
    case (Panic pv)
    then show ?thesis using e e' by (subst serialFields.simps) simp
  next
    case Hang
    then show ?thesis using e e' by (subst serialFields.simps) simp
  qed
qed

lemma inOrder_length:
  "inOrder step fs st = (Normal, bs, st') \<Longrightarrow> length bs = length fs"
proof (induction fs arbitrary: st bs)
  case Nil
  then show ?case by simp
next
  case (Cons f rest)
  then show ?case
    by (auto split: prod.splits status.splits)
qed

lemma resolveField_Spans:
  "resolveField r c tc f path st = (tc', res, err, st') \<Longrightarrow> Spans st' = Spans st"
  by (auto simp: resolveField_def split: if_splits option.splits prod.splits resolve_result.splits)

lemma execFieldSelection_block:
  assumes "execFieldSelection r c s f path applyLimiter st = (stat, b, st')" and "stat \<noteq> Hang"
  shows "\<exists>block. fieldBlock f block \<and> Spans st' = Spans st @ block"
proof -
  from assms have lim: "\<not> (applyLimiter \<and> Limiter r = 0)"
    by (subst (asm) execFieldSelection.simps) (auto split: if_splits)
  obtain tc res err st1 where e: "resolveField r c (traceField r c (field f)) f path (startSpan (field f) st) =
      (tc, res, err, st1)"
    by (metis prod_cases4)
  from resolveField_Spans[OF e] have s1: "Spans st1 = Spans st @ [startEvent (field f)]"
    by (simp add: startSpan_def startEvent_def)
  show ?thesis
  proof (cases err)
    case (Some er)
    with e execFieldSelection_error[OF lim, of c f path st tc res er st1 s] assms(1)
    have "st' = finish (Some er) (AddError er st1)" by simp
    then have "Spans st' = Spans st @ startEvent (field f) # [] @ [FieldFinish (Some er)]"
      using s1 by (simp add: finish_def AddError_def)
    then show ?thesis unfolding fieldBlock_def by blast
  next
    case None
    obtain stat2 b2 st2 where x: "execSelectionSet r tc (sels f) (Type (field f)) path s res (out f) st1 =
        (stat2, b2, st2)"
      by (metis prod_cases3)
    from exec_extends(5)[of st1 r tc "sels f" "Type (field f)" path s res "out f"] x
    have "prefix (Spans st1) (Spans st2)" by (simp add: extends_def)
    then obtain mid where m: "Spans st2 = Spans st1 @ mid" by (auto simp: prefix_def)
    from e None execFieldSelection_resolved[OF lim, of c f path st tc res st1 s] x assms(1)
    have "st' = finish None st2" by simp
    with m s1 have "Spans st' = Spans st @ startEvent (field f) # mid @ [FieldFinish None]"
      by (simp add: finish_def)
    then show ?thesis unfolding fieldBlock_def by blast
  qed
qed

lemma inOrder_blocks:
  "inOrder (rootStep r c s path) fs st = (Normal, bs, st') \<Longrightarrow>
   \<exists>blocks. length blocks = length fs \<and> Spans st' = Spans st @ concat blocks
     \<and> (\<forall>i<length fs. fieldBlock (fs ! i) (blocks ! i))"
proof (induction fs arbitrary: st bs)
  case Nil
  then show ?case by simp
next
  case (Cons f rest)
  obtain stat1 b st1 where e: "rootStep r c s path f st = (stat1, b, st1)"
    by (metis prod_cases3)
  with Cons.prems have n: "stat1 = Normal"
    by (auto split: status.splits prod.splits)
  from Cons.prems e n obtain bs' where r: "inOrder (rootStep r c s path) rest st1 = (Normal, bs', st')"
    by (auto split: prod.splits)
  from Cons.IH[OF r] obtain blocks where
    b: "length blocks = length rest" "Spans st' = Spans st1 @ concat blocks"
       "\<forall>i<length rest. fieldBlock (rest ! i) (blocks ! i)"
    by blast
  from e n have "execFieldSelection r c s (f\<lparr>out := ''''\<rparr>)
     (Some (PathSegment path (Key (Alias (field f))))) True st = (Normal, b, st1)"
    by (simp add: rootStep_def)
  from execFieldSelection_block[OF this] obtain block where
    k: "fieldBlock (f\<lparr>out := ''''\<rparr>) block" "Spans st1 = Spans st @ block"
    by auto
  from k(1) have k': "fieldBlock f block" by (simp add: fieldBlock_def)
  have "\<forall>i<length (f # rest). fieldBlock ((f # rest) ! i) ((block # blocks) ! i)"
    using k' b(3) by (auto simp: nth_Cons split: nat.splits)
  moreover have "length (block # blocks) = length (f # rest)" using b(1) by simp
  moreover have "Spans st' = Spans st @ concat (block # blocks)" using b(2) k(2) by simp
  ultimately show ?case by blast
qed

text \<open>
  Claim C6. When the \<^verbatim>\<open>serially\<close> flag is set, or no selection is asynchronous,
  \<^verbatim>\<open>execSelections\<close> runs the collected fields (which are in declaration order) strictly
  one after the other, each complete execution of a field, sub-selections included,
  starting in the state the previous one has left, and stopping at a panic; the goroutine
  schedule is not consulted for this selection set. When all fields return, the tracer has
  seen one block per field, in declaration order: the start of a field comes after the
  finish of the field before it. \<^verbatim>\<open>Execute\<close> runs the root selection set of a mutation with
  the flag set.
\<close>

theorem serial_fields_run_in_declaration_order:
  "(serially \<or> \<not> HasAsyncSel ss) \<and> collectFieldsToResolve r ss s res ([], Map.empty) = Inr (fs, m) \<longrightarrow>
     execSelections r c ss path s res buf serially st =
       (case inOrder (rootStep r c s path) fs st of
          (Normal, bs, st') \<Rightarrow> (Normal, writeFields (map2 (\<lambda>f b. f\<lparr>out := b\<rparr>) fs bs) buf, st')
        | (Panic pv, bs, st') \<Rightarrow> (Panic pv, buf, st')
        | (Hang, bs, st') \<Rightarrow> (Hang, buf, st'))
     \<and> (\<forall>bs st'. inOrder (rootStep r c s path) fs st = (Normal, bs, st') \<longrightarrow>
          (\<exists>blocks. length blocks = length fs \<and> Spans st' = Spans st @ concat blocks
             \<and> (\<forall>i<length fs. fieldBlock (fs ! i) (blocks ! i))))
     \<and> (validateSelections ss = None \<longrightarrow>
          executeBody r c s Mutation (Inr ss) validateSelections st =
            execSelections r c ss None s (MutationResolver s) '''' True st)"
proof (intro impI conjI allI)
  assume a: "(serially \<or> \<not> HasAsyncSel ss) \<and> collectFieldsToResolve r ss s res ([], Map.empty) = Inr (fs, m)"
  obtain stat bs st' where i: "inOrder (rootStep r c s path) fs st = (stat, bs, st')"
    by (metis prod_cases3)
  have sf: "serialFields r c s path fs st =
              (stat, map2 (\<lambda>f b. f\<lparr>out := b\<rparr>) fs bs @ drop (length bs) fs, st')"
    using serialFields_inOrder[of r c s path fs st] i by simp
  have na: "\<not> (\<not> serially \<and> HasAsyncSel ss)" using a by auto
  show "execSelections r c ss path s res buf serially st =
       (case inOrder (rootStep r c s path) fs st of
          (Normal, bs, st') \<Rightarrow> (Normal, writeFields (map2 (\<lambda>f b. f\<lparr>out := b\<rparr>) fs bs) buf, st')
        | (Panic pv, bs, st') \<Rightarrow> (Panic pv, buf, st')
        | (Hang, bs, st') \<Rightarrow> (Hang, buf, st'))"
  proof (cases stat)
    case Normal
    with i have "inOrder (rootStep r c s path) fs st = (Normal, bs, st')" by simp
    then have "length bs = length fs" by (rule inOrder_length)
    with a na sf i Normal show ?thesis
      by (subst execSelections.simps) auto
  next
    case (Panic pv)
    with a na sf i show ?thesis
      by (subst execSelections.simps) auto
  next
    case Hang
    with a na sf i show ?thesis
      by (subst execSelections.simps) auto
  qed
next
  fix bs st'
  assume "inOrder (rootStep r c s path) fs st = (Normal, bs, st')"
  then show "\<exists>blocks. length blocks = length fs \<and> Spans st' = Spans st @ concat blocks
             \<and> (\<forall>i<length fs. fieldBlock (fs ! i) (blocks ! i))"
    by (rule inOrder_blocks)
next
  assume "validateSelections ss = None"
  then show "executeBody r c s Mutation (Inr ss) validateSelections st =
            execSelections r c ss None s (MutationResolver s) '''' True st"
    by (simp add: executeBody_def rootResolver_def)
qed

theorem serial_fields_witness:
  "(\<exists>m. collectFieldsToResolve exRequest counterMutation exSchema (MutationResolver exSchema) ([], Map.empty) =
          Inr (counterFields, m))
   \<and> inOrder (rootStep exRequest [] exSchema None) counterFields exState = (Normal, [''1'', ''2'', ''3''], counterState)
   \<and> execSelections exRequest [] counterMutation None exSchema (MutationResolver exSchema) '''' True exState =
        (Normal, counterData, counterState)
   \<and> executeBody exRequest [] exSchema Mutation (Inr counterMutation) (\<lambda>ss. None) exState =
        (Normal, counterData, counterState)
   \<and> (\<exists>blocks. length blocks = 3 \<and> Spans counterState = Spans exState @ concat blocks
         \<and> fieldBlock (counterFields ! 0) (blocks ! 0)
         \<and> fieldBlock (counterFields ! 1) (blocks ! 1)
         \<and> fieldBlock (counterFields ! 2) (blocks ! 2))"
proof -
  let ?m = "[''a'' \<mapsto> 0::nat, ''b'' \<mapsto> Suc 0, ''c'' \<mapsto> Suc (Suc 0)]"
  have c: "collectFieldsToResolve exRequest counterMutation exSchema (MutationResolver exSchema) ([], Map.empty) =
          Inr (counterFields, ?m)"
    by (simp add: counterMutation_def counterFields_def increment_def ex_defs)
  have i: "inOrder (rootStep exRequest [] exSchema None) counterFields exState =
             (Normal, [''1'', ''2'', ''3''], counterState)"
    by (simp add: rootStep_def counterFields_def increment_def counterText_def counterState_def
          exec_eval ex_defs)
  have a: "(True \<or> \<not> HasAsyncSel counterMutation)
           \<and> collectFieldsToResolve exRequest counterMutation exSchema (MutationResolver exSchema) ([], Map.empty) =
          Inr (counterFields, ?m)"
    using c by simp
  note t = serial_fields_run_in_declaration_order[where serially = True and ss = counterMutation
      and r = exRequest and s = exSchema and res = "MutationResolver exSchema" and fs = counterFields and m = ?m
      and c = "[]" and path = None and buf = "''''" and st = exState and validateSelections = "\<lambda>ss. None",
      THEN mp, OF a]
  have w: "writeFields (map2 (\<lambda>f b. f\<lparr>out := b\<rparr>) counterFields [''1'', ''2'', ''3'']) '''' = counterData"
    by (simp add: counterFields_def counterData_def writeFields_def resolvedToNull_def increment_def exField_def)
  from t[THEN conjunct1] i w
  have e: "execSelections exRequest [] counterMutation None exSchema (MutationResolver exSchema) '''' True exState =
        (Normal, counterData, counterState)"
    by simp
  from t[THEN conjunct2, THEN conjunct2] e
  have b: "executeBody exRequest [] exSchema Mutation (Inr counterMutation) (\<lambda>ss. None) exState =
        (Normal, counterData, counterState)"
    by simp
  have "\<exists>blocks. length blocks = length counterFields \<and> Spans counterState = Spans exState @ concat blocks
          \<and> (\<forall>i<length counterFields. fieldBlock (counterFields ! i) (blocks ! i))"
    by (rule t[THEN conjunct2, THEN conjunct1, THEN spec, THEN spec, THEN mp, OF i])
  then obtain blocks where
    k: "length blocks = length counterFields" "Spans counterState = Spans exState @ concat blocks"
       "\<forall>i<length counterFields. fieldBlock (counterFields ! i) (blocks ! i)"
    by (elim exE conjE)
  have l: "length counterFields = 3" by (simp add: counterFields_def)
  have k0: "fieldBlock (counterFields ! 0) (blocks ! 0)"
    by (rule k(3)[THEN spec, THEN mp]) (simp add: l)
  have k1: "fieldBlock (counterFields ! 1) (blocks ! 1)"
    by (rule k(3)[THEN spec, THEN mp]) (simp add: l)
  have k2: "fieldBlock (counterFields ! 2) (blocks ! 2)"
    by (rule k(3)[THEN spec, THEN mp]) (simp add: l)
  have kl: "length blocks = 3" using k(1) l by (rule trans)
  have g1: "\<exists>m. collectFieldsToResolve exRequest counterMutation exSchema (MutationResolver exSchema) ([], Map.empty) =
          Inr (counterFields, m)"
    by (rule exI[of _ ?m]) (rule c)
  have g5: "\<exists>blocks. length blocks = 3 \<and> Spans counterState = Spans exState @ concat blocks
         \<and> fieldBlock (counterFields ! 0) (blocks ! 0)
         \<and> fieldBlock (counterFields ! 1) (blocks ! 1)
         \<and> fieldBlock (counterFields ! 2) (blocks ! 2)"
    by (rule exI[of _ blocks]) (rule conjI[OF kl conjI[OF k(2) conjI[OF k0 conjI[OF k1 k2]]]])
  show ?thesis by (rule conjI[OF g1 conjI[OF i conjI[OF e conjI[OF b g5]]]])
qed

section \<open>Two runs of one query\<close>

lemma variant_refl: "variant r r"
  unfolding variant_def by (rule exI[of _ "MapOrder r"], rule exI[of _ "Sched r"]) simp

lemma variant_fields:
  "variant r r' \<Longrightarrow> Limiter r' = Limiter r \<and> PanicHandler r' = PanicHandler r \<and> Tracer r' = Tracer r
     \<and> Marshal r' = Marshal r \<and> StringOf r' = StringOf r \<and> Method r' = Method r"
  by (auto simp: variant_def)

lemma firstMatch_result:
  assumes "\<forall>e\<in>set xs. \<forall>pv. Method r v (snd e) \<noteq> MethodPanics pv"
  shows "\<exists>n. firstMatch r v xs = Inr n
           \<and> (((\<forall>e\<in>set xs. \<not> matches r v (snd e)) \<and> n = '''')
               \<or> (\<exists>e\<in>set xs. matches r v (snd e) \<and> fst e = n))"
  using assms
proof (induction xs)
  case Nil
  then show ?case by simp
next
  case (Cons e xs)
  obtain name a where e: "e = (name, a)" by (cases e)
  from Cons.prems e obtain x ok where m: "Method r v a = MethodReturns x ok"
    by (cases "Method r v a") auto
  show ?case
  proof (cases ok)
    case True
    with e m show ?thesis by (auto simp: matches_def)
  next
    case False
    from Cons.prems have "\<forall>e\<in>set xs. \<forall>pv. Method r v (snd e) \<noteq> MethodPanics pv" by simp
    from Cons.IH[OF this] obtain n where
      n: "firstMatch r v xs = Inr n"
         "((\<forall>e\<in>set xs. \<not> matches r v (snd e)) \<and> n = '''') \<or> (\<exists>e\<in>set xs. matches r v (snd e) \<and> fst e = n)"
      by blast
    have nm: "\<not> matches r v (snd e)" using e m False by (simp add: matches_def)
    from n(1) e m False have f: "firstMatch r v (e # xs) = Inr n" by simp
    from n(2) nm have "((\<forall>e'\<in>set (e # xs). \<not> matches r v (snd e')) \<and> n = '''')
        \<or> (\<exists>e'\<in>set (e # xs). matches r v (snd e') \<and> fst e' = n)"
      by auto
    with f show ?thesis by blast
  qed
qed

lemma firstMatch_same_set:
  assumes "set xs = set ys"
    and "\<forall>e\<in>set xs. \<forall>pv. Method r v (snd e) \<noteq> MethodPanics pv"
    and "\<forall>e\<in>set xs. \<forall>e'\<in>set xs. matches r v (snd e) \<and> matches r v (snd e') \<longrightarrow> fst e = fst e'"
  shows "firstMatch r v xs = firstMatch r v ys"
proof -
  from firstMatch_result[OF assms(2)] obtain n where
    n: "firstMatch r v xs = Inr n"
       "((\<forall>e\<in>set xs. \<not> matches r v (snd e)) \<and> n = '''') \<or> (\<exists>e\<in>set xs. matches r v (snd e) \<and> fst e = n)"
    by blast
  from assms(1,2) have "\<forall>e\<in>set ys. \<forall>pv. Method r v (snd e) \<noteq> MethodPanics pv" by simp
  from firstMatch_result[OF this] obtain k where
    k: "firstMatch r v ys = Inr k"
       "((\<forall>e\<in>set ys. \<not> matches r v (snd e)) \<and> k = '''') \<or> (\<exists>e\<in>set ys. matches r v (snd e) \<and> fst e = k)"
    by blast
  from n(2) k(2) assms(1,3) have "n = k" by metis
  with n(1) k(1) show ?thesis by simp
qed

lemma set_validOrder: "set (validOrder ord n) = {0..<n}"
proof (cases "sort ord = [0..<n]")
  case True
  then have "set (sort ord) = set [0..<n]" by simp
  then have "set ord = {0..<n}" by simp
  with True show ?thesis by (simp add: validOrder_def)
next
  case False
  then show ?thesis by (simp add: validOrder_def)
qed

lemma set_mapRange: "set (mapRange r tas) = set tas"
proof -
  have "set (mapRange r tas) = (\<lambda>i. tas ! i) ` {0..<length tas}"
    by (simp add: mapRange_def set_validOrder)
  also have "\<dots> = set tas"
    by (metis atLeast_upt map_nth set_map set_upt)
  finally show ?thesis .
qed

lemma typeOf_variant:
  assumes "decidedTypename r tas" and "variant r r'"
  shows "typeOf r' name tas v = typeOf r name tas v"
proof (cases "length tas = 0")
  case True
  then show ?thesis by (simp add: typeOf_def)
next
  case False
  have m: "Method r' = Method r" using assms(2) by (simp add: variant_fields)
  have fm: "firstMatch r' v xs = firstMatch r v xs" for xs
    by (induction xs) (auto simp: m split: method_result.splits)
  have s: "set (mapRange r' tas) = set (mapRange r tas)" by (simp add: set_mapRange)
  from assms(1) have a: "\<forall>e\<in>set (mapRange r' tas). \<forall>pv. Method r v (snd e) \<noteq> MethodPanics pv"
    by (simp add: decidedTypename_def set_mapRange)
  from assms(1) have b: "\<forall>e\<in>set (mapRange r' tas). \<forall>e'\<in>set (mapRange r' tas).
      matches r v (snd e) \<and> matches r v (snd e') \<longrightarrow> fst e = fst e'"
    by (simp add: decidedTypename_def set_mapRange)
  from firstMatch_same_set[OF s a b] fm False show ?thesis by (simp add: typeOf_def)
qed

lemma collect_variant:
  "variant r r' \<Longrightarrow> decided r ss \<Longrightarrow>
   collectFieldsToResolve r' ss s res acc = collectFieldsToResolve r ss s res acc"
proof (induction r ss s res acc rule: collectFieldsToResolve.induct)
  case (1 r s res acc)
  then show ?case by simp
next
  case (2 r sel ss rest s res fs fieldByAlias)
  then show ?case by (cases "fieldByAlias (Alias sel)") simp_all
next
  case (3 r al name tas rest s res fs fieldByAlias)
  show ?case
  proof (cases "fieldByAlias al")
    case None
    from 3(3,4) have t: "typeOf r' name tas res = typeOf r name tas res"
      by (simp add: typeOf_variant)
    show ?thesis
    proof (cases "typeOf r name tas res")
      case (Inl pv)
      with None t show ?thesis by simp
    next
      case (Inr tn)
      from 3(1)[OF None Inr 3(3)] 3(4) None t Inr show ?thesis by simp
    qed
  next
    case (Some i)
    from 3(2)[OF Some 3(3)] 3(4) Some show ?thesis by simp
  qed
next
  case (4 r mi ss rest s res acc)
  have m: "Method r' = Method r" using 4(4) by (simp add: variant_fields)
  show ?case
  proof (cases "Method r res mi")
    case (MethodPanics pv)
    with m show ?thesis by simp
  next
    case (MethodReturns v ok)
    show ?thesis
    proof (cases ok)
      case False
      from 4(1)[OF MethodReturns False 4(4)] 4(5) MethodReturns False m show ?thesis by simp
    next
      case True
      from MethodReturns True have nn: "\<not> \<not> ok" by simp
      from 4(2)[OF MethodReturns nn 4(4)] 4(5)
      have a: "collectFieldsToResolve r' ss s v acc = collectFieldsToResolve r ss s v acc" by simp
      show ?thesis
      proof (cases "collectFieldsToResolve r ss s v acc")
        case (Inl pv)
        with a MethodReturns True m show ?thesis by simp
      next
        case (Inr acc1)
        from 4(3)[OF MethodReturns nn Inr 4(4)] 4(5)
        have "collectFieldsToResolve r' rest s res acc1 = collectFieldsToResolve r rest s res acc1" by simp
        with a Inr MethodReturns True m show ?thesis by simp
      qed
    qed
  qed
qed

lemma pureSels_append: "pureSels (xs @ ys) = (pureSels xs \<and> pureSels ys)"
  by (induction xs rule: pureSels.induct) auto

lemma decided_append: "decided r (xs @ ys) = (decided r xs \<and> decided r ys)"
  by (induction r xs rule: decided.induct) auto

lemma pureExec_update:
  assumes "\<forall>f\<in>set fs. pureExec r f" and "pureSels ss" and "decided r ss"
  shows "\<forall>f\<in>set (fs[i := (fs ! i)\<lparr>sels := sels (fs ! i) @ ss\<rparr>]). pureExec r f"
proof (cases "i < length fs")
  case True
  with assms(1) have "pureExec r (fs ! i)" by simp
  with assms(2,3) have "pureExec r ((fs ! i)\<lparr>sels := sels (fs ! i) @ ss\<rparr>)"
    by (simp add: pureExec_def pureSels_append decided_append)
  with assms(1) show ?thesis
    using set_update_subset_insert[of fs i] by blast
next
  case False
  with assms(1) show ?thesis by (simp add: list_update_beyond)
qed

lemma collect_pure:
  "collectFieldsToResolve r ss s res acc = Inr acc' \<Longrightarrow> pureSels ss \<Longrightarrow> decided r ss \<Longrightarrow>
   \<forall>f\<in>set (fst acc). pureExec r f \<Longrightarrow> \<forall>f\<in>set (fst acc'). pureExec r f"
proof (induction r ss s res acc arbitrary: acc' rule: collectFieldsToResolve.induct)
  case (1 r s res acc)
  then show ?case by simp
next
  case (2 r sel ss rest s res fs fieldByAlias)
  show ?case
  proof (cases "fieldByAlias (Alias sel)")
    case None
    from 2(4,5,6) have p: "\<forall>f\<in>set (fst (fs @ [\<lparr>field = sel, sels = ss, resolver = res, out = ''''\<rparr>],
        fieldByAlias(Alias sel \<mapsto> length fs))). pureExec r f"
      by (auto simp: pureExec_def)
    from 2(3) None have c: "collectFieldsToResolve r rest s res
        (fs @ [\<lparr>field = sel, sels = ss, resolver = res, out = ''''\<rparr>], fieldByAlias(Alias sel \<mapsto> length fs)) = Inr acc'"
      by simp
    from 2(4,5) have q: "pureSels rest" "decided r rest" by simp_all
    from 2(1)[OF None c q p] show ?thesis .
  next
    case (Some i)
    from 2(4,5,6) have "\<forall>f\<in>set (fs[i := (fs ! i)\<lparr>sels := sels (fs ! i) @ ss\<rparr>]). pureExec r f"
      by (intro pureExec_update) simp_all
    then have p: "\<forall>f\<in>set (fst (fs[i := (fs ! i)\<lparr>sels := sels (fs ! i) @ ss\<rparr>], fieldByAlias)). pureExec r f"
      by simp
    from 2(3) Some have c: "collectFieldsToResolve r rest s res
        (fs[i := (fs ! i)\<lparr>sels := sels (fs ! i) @ ss\<rparr>], fieldByAlias) = Inr acc'"
      by simp
    from 2(4,5) have q: "pureSels rest" "decided r rest" by simp_all
    from 2(2)[OF Some c q p] show ?thesis .
  qed
next
  case (3 r al name tas rest s res fs fieldByAlias)
  from 3(4,5) have q: "pureSels rest" "decided r rest" by simp_all
  show ?case
  proof (cases "fieldByAlias al")
    case None
    show ?thesis
    proof (cases "typeOf r name tas res")
      case (Inl pv)
      with None 3(3) show ?thesis by simp
    next
      case (Inr tn)
      from 3(6) have p: "\<forall>f\<in>set (fst (fs @ [\<lparr>field = typenameField s al tn, sels = [], resolver = res, out = ''''\<rparr>],
          fieldByAlias(al \<mapsto> length fs))). pureExec r f"
        by (auto simp: pureExec_def typenameField_def)
      from 3(3) None Inr have c: "collectFieldsToResolve r rest s res
          (fs @ [\<lparr>field = typenameField s al tn, sels = [], resolver = res, out = ''''\<rparr>],
           fieldByAlias(al \<mapsto> length fs)) = Inr acc'"
        by simp
      from 3(1)[OF None Inr c q p] show ?thesis .
    qed
  next
    case (Some i)
    from 3(3) Some have c: "collectFieldsToResolve r rest s res (fs, fieldByAlias) = Inr acc'" by simp
    from 3(2)[OF Some c q 3(6)] show ?thesis .
  qed
next
  case (4 r mi ss rest s res acc)
  from 4(5,6) have q: "pureSels rest" "decided r rest" and q': "pureSels ss" "decided r ss" by simp_all
  show ?case
  proof (cases "Method r res mi")
    case (MethodPanics pv)
    with 4(4) show ?thesis by simp
  next
    case (MethodReturns v ok)
    show ?thesis
    proof (cases ok)
      case False
      with MethodReturns 4(4) have c: "collectFieldsToResolve r rest s res acc = Inr acc'" by simp
      from 4(1)[OF MethodReturns False c q 4(7)] show ?thesis .
    next
      case True
      from MethodReturns True have nn: "\<not> \<not> ok" by simp
      show ?thesis
      proof (cases "collectFieldsToResolve r ss s v acc")
        case (Inl pv)
        with MethodReturns True 4(4) show ?thesis by simp
      next
        case (Inr acc1)
        from 4(2)[OF MethodReturns nn Inr q' 4(7)]
        have p: "\<forall>f\<in>set (fst acc1). pureExec r f" .
        from MethodReturns True Inr 4(4)
        have c: "collectFieldsToResolve r rest s res acc1 = Inr acc'" by simp
        from 4(3)[OF MethodReturns nn Inr c q p] show ?thesis .
      qed
    qed
  qed
qed

lemma settledI:
  fixes run :: "request \<Rightarrow> 'u state \<Rightarrow> status \<times> 'b \<times> 'u state"
  assumes "stat = Hang \<Longrightarrow> Limiter r = 0"
    and "\<And>r' st. variant r r' \<Longrightarrow> CtxErr (World st) = None \<Longrightarrow>
           \<exists>st' new. run r' st = (stat, b, st') \<and> World st' = World st
             \<and> Errs st' = Errs st @ new \<and> mset new = es"
  shows "settled r run"
  unfolding settled_def settles_def using assms by blast

lemma settled_pure:
  fixes run :: "request \<Rightarrow> 'u state \<Rightarrow> status \<times> 'b \<times> 'u state"
  assumes "stat \<noteq> Hang" and "\<And>r' st. variant r r' \<Longrightarrow> run r' st = (stat, b, st)"
  shows "settled r run"
proof (rule settledI[where stat = stat and b = b and es = "{#}"])
  show "stat = Hang \<Longrightarrow> Limiter r = 0" using assms(1) by simp
next
  fix r' and st :: "'u state" assume "variant r r'"
  from assms(2)[OF this, of st]
  show "\<exists>st' new. run r' st = (stat, b, st') \<and> World st' = World st \<and> Errs st' = Errs st @ new \<and> mset new = {#}"
    by simp
qed

lemma settled_error:
  fixes run :: "request \<Rightarrow> 'u state \<Rightarrow> status \<times> 'b \<times> 'u state"
  assumes "stat \<noteq> Hang" and "\<And>r' st. variant r r' \<Longrightarrow> run r' st = (stat, b, AddError e st)"
  shows "settled r run"
proof (rule settledI[where stat = stat and b = b and es = "{#e#}"])
  show "stat = Hang \<Longrightarrow> Limiter r = 0" using assms(1) by simp
next
  fix r' and st :: "'u state" assume "variant r r'"
  from assms(2)[OF this, of st]
  have "run r' st = (stat, b, AddError e st) \<and> World (AddError e st) = World st
      \<and> Errs (AddError e st) = Errs st @ [e] \<and> mset [e] = {#e#}"
    by (simp add: AddError_def)
  then show "\<exists>st' new. run r' st = (stat, b, st') \<and> World st' = World st \<and> Errs st' = Errs st @ new \<and> mset new = {#e#}"
    by blast
qed

lemma settled_via:
  fixes run :: "request \<Rightarrow> 'u state \<Rightarrow> status \<times> 'b \<times> 'u state"
  assumes "settled r run2"
    and "\<And>r' st. variant r r' \<Longrightarrow> CtxErr (World st) = None \<Longrightarrow>
           \<exists>st1. World st1 = World st \<and> Errs st1 = Errs st
             \<and> (\<forall>stat x st2. run2 r' st1 = (stat, x, st2) \<longrightarrow>
                  (\<exists>st3. run r' st = (stat, g stat x, st3) \<and> World st3 = World st2 \<and> Errs st3 = Errs st2))"
  shows "settled r run"
proof -
  from assms(1) obtain stat b es where s: "settles r run2 stat b es" unfolding settled_def by blast
  show ?thesis
  proof (rule settledI[where stat = stat and b = "g stat b" and es = es])
    show "stat = Hang \<Longrightarrow> Limiter r = 0" using s by (simp add: settles_def)
  next
    fix r' and st :: "'u state" assume v: "variant r r'" and n: "CtxErr (World st) = None"
    from assms(2)[OF v n] obtain st1 where
      a: "World st1 = World st" "Errs st1 = Errs st"
      and b: "\<forall>stat x st2. run2 r' st1 = (stat, x, st2) \<longrightarrow>
                  (\<exists>st3. run r' st = (stat, g stat x, st3) \<and> World st3 = World st2 \<and> Errs st3 = Errs st2)"
      by blast
    from a n have n1: "CtxErr (World st1) = None" by simp
    from s v n1 obtain st2 new where
      c: "run2 r' st1 = (stat, b, st2)" "World st2 = World st1" "Errs st2 = Errs st1 @ new" "mset new = es"
      unfolding settles_def by blast
    from b c(1) obtain st3 where
      d: "run r' st = (stat, g stat b, st3)" "World st3 = World st2" "Errs st3 = Errs st2"
      by blast
    from a c d have "run r' st = (stat, g stat b, st3) \<and> World st3 = World st
        \<and> Errs st3 = Errs st @ new \<and> mset new = es"
      by simp
    then show "\<exists>st' new. run r' st = (stat, g stat b, st') \<and> World st' = World st
        \<and> Errs st' = Errs st @ new \<and> mset new = es"
      by blast
  qed
qed

lemma settled_seq:
  fixes run :: "request \<Rightarrow> 'u state \<Rightarrow> status \<times> 'b \<times> 'u state"
  assumes head: "settles r run1 stat1 b1 es1"
    and rest: "stat1 = Normal \<Longrightarrow> settled r run2"
    and comb: "\<And>r' st st1 stat2 x st2. variant r r' \<Longrightarrow> stat1 = Normal \<Longrightarrow>
                 run1 r' st = (Normal, b1, st1) \<Longrightarrow> run2 r' st1 = (stat2, x, st2) \<Longrightarrow>
                 run r' st = (stat2, g x, st2)"
    and stop: "\<And>r' st st1. variant r r' \<Longrightarrow> stat1 \<noteq> Normal \<Longrightarrow>
                 run1 r' st = (stat1, b1, st1) \<Longrightarrow> run r' st = (stat1, k, st1)"
  shows "settled r run"
proof (cases "stat1 = Normal")
  case True
  from rest[OF True] obtain stat2 x es2 where s2: "settles r run2 stat2 x es2"
    unfolding settled_def by blast
  show ?thesis
  proof (rule settledI[where stat = stat2 and b = "g x" and es = "es1 + es2"])
    show "stat2 = Hang \<Longrightarrow> Limiter r = 0" using s2 by (simp add: settles_def)
  next
    fix r' and st :: "'u state" assume v: "variant r r'" and n: "CtxErr (World st) = None"
    from head v n True obtain st1 new1 where
      a: "run1 r' st = (Normal, b1, st1)" "World st1 = World st" "Errs st1 = Errs st @ new1" "mset new1 = es1"
      unfolding settles_def by blast
    from a(2) n have n1: "CtxErr (World st1) = None" by simp
    from s2 v n1 obtain st2 new2 where
      b: "run2 r' st1 = (stat2, x, st2)" "World st2 = World st1" "Errs st2 = Errs st1 @ new2" "mset new2 = es2"
      unfolding settles_def by blast
    from comb[OF v True a(1) b(1)] a b
    have "run r' st = (stat2, g x, st2) \<and> World st2 = World st
        \<and> Errs st2 = Errs st @ (new1 @ new2) \<and> mset (new1 @ new2) = es1 + es2"
      by simp
    then show "\<exists>st' new. run r' st = (stat2, g x, st') \<and> World st' = World st
        \<and> Errs st' = Errs st @ new \<and> mset new = es1 + es2"
      by blast
  qed
next
  case False
  show ?thesis
  proof (rule settledI[where stat = stat1 and b = k and es = es1])
    show "stat1 = Hang \<Longrightarrow> Limiter r = 0" using head by (simp add: settles_def)
  next
    fix r' and st :: "'u state" assume v: "variant r r'" and n: "CtxErr (World st) = None"
    from head v n obtain st1 new1 where
      a: "run1 r' st = (stat1, b1, st1)" "World st1 = World st" "Errs st1 = Errs st @ new1" "mset new1 = es1"
      unfolding settles_def by blast
    from stop[OF v False a(1)] a
    have "run r' st = (stat1, k, st1) \<and> World st1 = World st \<and> Errs st1 = Errs st @ new1 \<and> mset new1 = es1"
      by simp
    then show "\<exists>st' new. run r' st = (stat1, k, st') \<and> World st' = World st
        \<and> Errs st' = Errs st @ new \<and> mset new = es1"
      by blast
  qed
qed

lemma resolveField_settled:
  assumes "FixedResult (field f) \<noteq> Invalid \<or> pureField (field f)"
    and "CtxErr (World st) = None" and "CtxErr (World st') = None"
    and "PanicHandler r' = PanicHandler r"
    and "resolveField r c tc f path st = (tc1, res, err, st1)"
  shows "\<exists>st1'. resolveField r' c tc f path st' = (tc1, res, err, st1')
           \<and> World st1' = World st' \<and> Errs st1' = Errs st'"
proof (cases "FixedResult (field f) \<noteq> Invalid")
  case True
  with assms(5) show ?thesis by (simp add: resolveField_def)
next
  case False
  with assms(1) have p: "pureField (field f)" by simp
  then have a: "fst (resolve f c (World st')) = fst (resolve f c (World st))"
    and b: "snd (resolve f c (World st')) = World st'"
    unfolding pureField_def resolve_def by blast+
  obtain rr w where rw: "resolve f c (World st) = (rr, w)" by (cases "resolve f c (World st)")
  with a b have rw': "resolve f c (World st') = (rr, World st')"
    by (metis fst_conv prod.collapse)
  from False assms(2,3,4,5) rw rw' show ?thesis
    by (cases rr) (auto simp: resolveField_def split: option.splits)
qed

lemma sorted_order:
  assumes "sort ord = [0..<n]"
  shows "distinct ord \<and> set ord = {0..<n} \<and> mset ord = mset [0..<n]"
proof -
  from assms have "mset (sort ord) = mset [0..<n]" by simp
  then have m: "mset ord = mset [0..<n]" by simp
  then have "set_mset (mset ord) = set_mset (mset [0..<n])" by simp
  then have s: "set ord = {0..<n}" by simp
  from m have "distinct ord = distinct [0..<n]" by (rule mset_eq_imp_distinct_iff)
  with m s show ?thesis by simp
qed

lemma validOrder_order:
  "distinct (validOrder ord n) \<and> set (validOrder ord n) = {0..<n} \<and> mset (validOrder ord n) = mset [0..<n]"
  using sorted_order[of ord n] by (simp add: validOrder_def)

lemma validListOrder_order:
  "distinct (validListOrder ord n cap) \<and> set (validListOrder ord n cap) = {0..<n}
     \<and> mset (validListOrder ord n cap) = mset [0..<n]"
  using sorted_order[of ord n] by (simp add: validListOrder_def)

lemma goFields_settles:
  fixes D :: "nat \<Rightarrow> status \<times> string \<times> query_error multiset"
  assumes v: "variant r r'"
  shows "distinct ord \<Longrightarrow> CtxErr (World st) = None \<Longrightarrow>
    \<forall>i\<in>set ord. i < length fs \<and> fst (D i) \<noteq> Hang
       \<and> settles r (\<lambda>r' st'. execFieldSelection r' c s ((fs ! i)\<lparr>out := ''''\<rparr>)
                         (Some (PathSegment path (Key (Alias (field (fs ! i)))))) True st')
            (fst (D i)) (fst (snd (D i))) (snd (snd (D i))) \<Longrightarrow>
    \<exists>st' new. goFields r' c s path ord fs st =
        (Normal, map (\<lambda>j. if j \<in> set ord then (fs ! j)\<lparr>out := fst (snd (D j))\<rparr> else fs ! j) [0..<length fs], st')
      \<and> World st' = World st \<and> Errs st' = Errs st @ new
      \<and> mset new = (\<Sum>i\<in>#mset ord. snd (snd (D i)) + recovered r c (fst (D i)))"
proof (induction ord arbitrary: fs st)
  case Nil
  have "goFields r' c s path [] fs st = (Normal, fs, st)" by (subst goFields.simps) simp
  then show ?case by (simp add: map_nth)
next
  case (Cons i rest)
  from Cons.prems(3) have i: "i < length fs" and h: "fst (D i) \<noteq> Hang"
    and si: "settles r (\<lambda>r' st'. execFieldSelection r' c s ((fs ! i)\<lparr>out := ''''\<rparr>)
                         (Some (PathSegment path (Key (Alias (field (fs ! i)))))) True st')
            (fst (D i)) (fst (snd (D i))) (snd (snd (D i)))"
    by simp_all
  from si v Cons.prems(2) obtain st1 new1 where
    e: "execFieldSelection r' c s ((fs ! i)\<lparr>out := ''''\<rparr>)
          (Some (PathSegment path (Key (Alias (field (fs ! i)))))) True st = (fst (D i), fst (snd (D i)), st1)"
    and w1: "World st1 = World st" and e1: "Errs st1 = Errs st @ new1" and m1: "mset new1 = snd (snd (D i))"
    unfolding settles_def by blast
  define fs1 where "fs1 = fs[i := (fs ! i)\<lparr>out := fst (snd (D i))\<rparr>]"
  define st2 where "st2 = (case fst (D i) of Panic pv \<Rightarrow> handlePanic r' c pv st1 | _ \<Rightarrow> st1)"
  define new2 where "new2 = (case fst (D i) of Panic pv \<Rightarrow> [PanicHandler r c pv] | _ \<Rightarrow> [])"
  have ph: "PanicHandler r' = PanicHandler r" using v by (simp add: variant_fields)
  have w2: "World st2 = World st" using w1
    by (cases "fst (D i)") (simp_all add: st2_def handlePanic_def AddError_def)
  have e2: "Errs st2 = Errs st @ new1 @ new2" using e1 ph
    by (cases "fst (D i)") (simp_all add: st2_def new2_def handlePanic_def AddError_def)
  have m2: "mset new2 = recovered r c (fst (D i))"
    by (cases "fst (D i)") (simp_all add: new2_def recovered_def)
  have step: "goFields r' c s path (i # rest) fs st = goFields r' c s path rest fs1 st2"
    using i e h by (subst goFields.simps) (cases "fst (D i)", simp_all add: fs1_def st2_def)
  from Cons.prems(1) have d: "distinct rest" and ni: "i \<notin> set rest" by simp_all
  from w2 Cons.prems(2) have n2: "CtxErr (World st2) = None" by simp
  have same: "fs1 ! j = fs ! j" if "j \<in> set rest" for j
  proof -
    from that ni have "i \<noteq> j" by auto
    then show ?thesis by (simp add: fs1_def)
  qed
  have len: "length fs1 = length fs" by (simp add: fs1_def)
  have p: "\<forall>j\<in>set rest. j < length fs1 \<and> fst (D j) \<noteq> Hang
       \<and> settles r (\<lambda>r' st'. execFieldSelection r' c s ((fs1 ! j)\<lparr>out := ''''\<rparr>)
                         (Some (PathSegment path (Key (Alias (field (fs1 ! j)))))) True st')
            (fst (D j)) (fst (snd (D j))) (snd (snd (D j)))"
  proof
    fix j assume j: "j \<in> set rest"
    with Cons.prems(3) have "j < length fs \<and> fst (D j) \<noteq> Hang
       \<and> settles r (\<lambda>r' st'. execFieldSelection r' c s ((fs ! j)\<lparr>out := ''''\<rparr>)
                         (Some (PathSegment path (Key (Alias (field (fs ! j)))))) True st')
            (fst (D j)) (fst (snd (D j))) (snd (snd (D j)))"
      by simp
    with same[OF j] len show "j < length fs1 \<and> fst (D j) \<noteq> Hang
       \<and> settles r (\<lambda>r' st'. execFieldSelection r' c s ((fs1 ! j)\<lparr>out := ''''\<rparr>)
                         (Some (PathSegment path (Key (Alias (field (fs1 ! j)))))) True st')
            (fst (D j)) (fst (snd (D j))) (snd (snd (D j)))"
      by simp
  qed
  from Cons.IH[OF d n2 p] obtain st' new3 where
    g: "goFields r' c s path rest fs1 st2 =
        (Normal, map (\<lambda>j. if j \<in> set rest then (fs1 ! j)\<lparr>out := fst (snd (D j))\<rparr> else fs1 ! j) [0..<length fs1], st')"
    and w3: "World st' = World st2" and e3: "Errs st' = Errs st2 @ new3"
    and m3: "mset new3 = (\<Sum>i\<in>#mset rest. snd (snd (D i)) + recovered r c (fst (D i)))"
    by blast
  have lists: "map (\<lambda>j. if j \<in> set rest then (fs1 ! j)\<lparr>out := fst (snd (D j))\<rparr> else fs1 ! j) [0..<length fs1]
      = map (\<lambda>j. if j \<in> set (i # rest) then (fs ! j)\<lparr>out := fst (snd (D j))\<rparr> else fs ! j) [0..<length fs]"
  proof (rule nth_equalityI)
    show "length (map (\<lambda>j. if j \<in> set rest then (fs1 ! j)\<lparr>out := fst (snd (D j))\<rparr> else fs1 ! j) [0..<length fs1])
        = length (map (\<lambda>j. if j \<in> set (i # rest) then (fs ! j)\<lparr>out := fst (snd (D j))\<rparr> else fs ! j) [0..<length fs])"
      by (simp add: len)
  next
    fix j assume "j < length (map (\<lambda>j. if j \<in> set rest then (fs1 ! j)\<lparr>out := fst (snd (D j))\<rparr> else fs1 ! j) [0..<length fs1])"
    then have j: "j < length fs" by (simp add: len)
    show "map (\<lambda>j. if j \<in> set rest then (fs1 ! j)\<lparr>out := fst (snd (D j))\<rparr> else fs1 ! j) [0..<length fs1] ! j
        = map (\<lambda>j. if j \<in> set (i # rest) then (fs ! j)\<lparr>out := fst (snd (D j))\<rparr> else fs ! j) [0..<length fs] ! j"
    proof (cases "j = i")
      case True
      with j ni show ?thesis by (simp add: len fs1_def)
    next
      case False
      with j show ?thesis by (simp add: len fs1_def)
    qed
  qed
  from step g lists w3 w2 e3 e2 m1 m2 m3
  have "goFields r' c s path (i # rest) fs st =
        (Normal, map (\<lambda>j. if j \<in> set (i # rest) then (fs ! j)\<lparr>out := fst (snd (D j))\<rparr> else fs ! j) [0..<length fs], st')
      \<and> World st' = World st \<and> Errs st' = Errs st @ (new1 @ new2 @ new3)
      \<and> mset (new1 @ new2 @ new3) = (\<Sum>i\<in>#mset (i # rest). snd (snd (D i)) + recovered r c (fst (D i)))"
    by (simp add: ac_simps)
  then show ?case by blast
qed

lemma goEntries_settles:
  fixes D :: "nat \<Rightarrow> status \<times> string \<times> query_error multiset"
  assumes v: "variant r r'"
  shows "distinct ord \<Longrightarrow> CtxErr (World st) = None \<Longrightarrow>
    \<forall>i\<in>set ord. i < length vs \<and> i < length eo \<and> fst (D i) \<noteq> Hang
       \<and> settles r (\<lambda>r' st'. execSelectionSet r' c ss ofType (Some (PathSegment path (Index i))) s (vs ! i)
                         (eo ! i) st')
            (fst (D i)) (fst (snd (D i))) (snd (snd (D i))) \<Longrightarrow>
    \<exists>st' new. goEntries r' c ss ofType path s vs ord eo st =
        (Normal, map (\<lambda>j. if j \<in> set ord then fst (snd (D j)) else eo ! j) [0..<length eo], st')
      \<and> World st' = World st \<and> Errs st' = Errs st @ new
      \<and> mset new = (\<Sum>i\<in>#mset ord. snd (snd (D i)) + recovered r c (fst (D i)))"
proof (induction ord arbitrary: eo st)
  case Nil
  have "goEntries r' c ss ofType path s vs [] eo st = (Normal, eo, st)" by (subst goEntries.simps) simp
  then show ?case by (simp add: map_nth)
next
  case (Cons i rest)
  from Cons.prems(3) have i: "i < length vs" and ie: "i < length eo" and h: "fst (D i) \<noteq> Hang"
    and si: "settles r (\<lambda>r' st'. execSelectionSet r' c ss ofType (Some (PathSegment path (Index i))) s (vs ! i)
                         (eo ! i) st')
            (fst (D i)) (fst (snd (D i))) (snd (snd (D i)))"
    by simp_all
  from si v Cons.prems(2) obtain st1 new1 where
    e: "execSelectionSet r' c ss ofType (Some (PathSegment path (Index i))) s (vs ! i) (eo ! i) st
          = (fst (D i), fst (snd (D i)), st1)"
    and w1: "World st1 = World st" and e1: "Errs st1 = Errs st @ new1" and m1: "mset new1 = snd (snd (D i))"
    unfolding settles_def by blast
  define eo1 where "eo1 = eo[i := fst (snd (D i))]"
  define st2 where "st2 = (case fst (D i) of Panic pv \<Rightarrow> handlePanic r' c pv st1 | _ \<Rightarrow> st1)"
  define new2 where "new2 = (case fst (D i) of Panic pv \<Rightarrow> [PanicHandler r c pv] | _ \<Rightarrow> [])"
  have ph: "PanicHandler r' = PanicHandler r" using v by (simp add: variant_fields)
  have w2: "World st2 = World st" using w1
    by (cases "fst (D i)") (simp_all add: st2_def handlePanic_def AddError_def)
  have e2: "Errs st2 = Errs st @ new1 @ new2" using e1 ph
    by (cases "fst (D i)") (simp_all add: st2_def new2_def handlePanic_def AddError_def)
  have m2: "mset new2 = recovered r c (fst (D i))"
    by (cases "fst (D i)") (simp_all add: new2_def recovered_def)
  have step: "goEntries r' c ss ofType path s vs (i # rest) eo st = goEntries r' c ss ofType path s vs rest eo1 st2"
    using i e h by (subst goEntries.simps) (cases "fst (D i)", simp_all add: eo1_def st2_def)
  from Cons.prems(1) have d: "distinct rest" and ni: "i \<notin> set rest" by simp_all
  from w2 Cons.prems(2) have n2: "CtxErr (World st2) = None" by simp
  have same: "eo1 ! j = eo ! j" if "j \<in> set rest" for j
  proof -
    from that ni have "i \<noteq> j" by auto
    then show ?thesis by (simp add: eo1_def)
  qed
  have len: "length eo1 = length eo" by (simp add: eo1_def)
  have p: "\<forall>j\<in>set rest. j < length vs \<and> j < length eo1 \<and> fst (D j) \<noteq> Hang
       \<and> settles r (\<lambda>r' st'. execSelectionSet r' c ss ofType (Some (PathSegment path (Index j))) s (vs ! j)
                         (eo1 ! j) st')
            (fst (D j)) (fst (snd (D j))) (snd (snd (D j)))"
  proof
    fix j assume j: "j \<in> set rest"
    with Cons.prems(3) have "j < length vs \<and> j < length eo \<and> fst (D j) \<noteq> Hang
       \<and> settles r (\<lambda>r' st'. execSelectionSet r' c ss ofType (Some (PathSegment path (Index j))) s (vs ! j)
                         (eo ! j) st')
            (fst (D j)) (fst (snd (D j))) (snd (snd (D j)))"
      by simp
    with same[OF j] len show "j < length vs \<and> j < length eo1 \<and> fst (D j) \<noteq> Hang
       \<and> settles r (\<lambda>r' st'. execSelectionSet r' c ss ofType (Some (PathSegment path (Index j))) s (vs ! j)
                         (eo1 ! j) st')
            (fst (D j)) (fst (snd (D j))) (snd (snd (D j)))"
      by simp
  qed
  from Cons.IH[OF d n2 p] obtain st' new3 where
    g: "goEntries r' c ss ofType path s vs rest eo1 st2 =
        (Normal, map (\<lambda>j. if j \<in> set rest then fst (snd (D j)) else eo1 ! j) [0..<length eo1], st')"
    and w3: "World st' = World st2" and e3: "Errs st' = Errs st2 @ new3"
    and m3: "mset new3 = (\<Sum>i\<in>#mset rest. snd (snd (D i)) + recovered r c (fst (D i)))"
    by blast
  have lists: "map (\<lambda>j. if j \<in> set rest then fst (snd (D j)) else eo1 ! j) [0..<length eo1]
      = map (\<lambda>j. if j \<in> set (i # rest) then fst (snd (D j)) else eo ! j) [0..<length eo]"
  proof (rule nth_equalityI)
    show "length (map (\<lambda>j. if j \<in> set rest then fst (snd (D j)) else eo1 ! j) [0..<length eo1])
        = length (map (\<lambda>j. if j \<in> set (i # rest) then fst (snd (D j)) else eo ! j) [0..<length eo])"
      by (simp add: len)
  next
    fix j assume "j < length (map (\<lambda>j. if j \<in> set rest then fst (snd (D j)) else eo1 ! j) [0..<length eo1])"
    then have j: "j < length eo" by (simp add: len)
    show "map (\<lambda>j. if j \<in> set rest then fst (snd (D j)) else eo1 ! j) [0..<length eo1] ! j
        = map (\<lambda>j. if j \<in> set (i # rest) then fst (snd (D j)) else eo ! j) [0..<length eo] ! j"
    proof (cases "j = i")
      case True
      with j ni show ?thesis by (simp add: len eo1_def)
    next
      case False
      with j show ?thesis by (simp add: len eo1_def)
    qed
  qed
  from step g lists w3 w2 e3 e2 m1 m2 m3
  have "goEntries r' c ss ofType path s vs (i # rest) eo st =
        (Normal, map (\<lambda>j. if j \<in> set (i # rest) then fst (snd (D j)) else eo ! j) [0..<length eo], st')
      \<and> World st' = World st \<and> Errs st' = Errs st @ (new1 @ new2 @ new3)
      \<and> mset (new1 @ new2 @ new3) = (\<Sum>i\<in>#mset (i # rest). snd (snd (D i)) + recovered r c (fst (D i)))"
    by (simp add: ac_simps)
  then show ?case by blast
qed

lemma settled_eq:
  fixes run :: "request \<Rightarrow> 'u state \<Rightarrow> status \<times> 'b \<times> 'u state"
  assumes "settled r run2" and "\<And>r' st. variant r r' \<Longrightarrow> run r' st = run2 r' st"
  shows "settled r run"
proof (rule settled_via[where g = "\<lambda>stat x. x", OF assms(1)])
  fix r' and st :: "'u state" assume v: "variant r r'"
  from assms(2)[OF v, of st]
  have "World st = World st \<and> Errs st = Errs st
      \<and> (\<forall>stat x st2. run2 r' st = (stat, x, st2) \<longrightarrow>
           (\<exists>st3. run r' st = (stat, x, st3) \<and> World st3 = World st2 \<and> Errs st3 = Errs st2))"
    by simp
  then show "\<exists>st1. World st1 = World st \<and> Errs st1 = Errs st
      \<and> (\<forall>stat x st2. run2 r' st1 = (stat, x, st2) \<longrightarrow>
           (\<exists>st3. run r' st = (stat, x, st3) \<and> World st3 = World st2 \<and> Errs st3 = Errs st2))"
    by (rule exI[of _ st])
qed

lemma out_reset:
  "j < length fs \<Longrightarrow> (fs[i := (fs ! i)\<lparr>out := b\<rparr>] ! j)\<lparr>out := ''''\<rparr> = (fs ! j)\<lparr>out := ''''\<rparr>"
  by (cases "i = j") simp_all

lemma out_field:
  "j < length fs \<Longrightarrow> field (fs[i := (fs ! i)\<lparr>out := b\<rparr>] ! j) = field (fs ! j)"
  by (cases "i = j") simp_all

lemma pureExec_out:
  assumes "\<forall>f\<in>set fs. pureExec r f"
  shows "\<forall>f\<in>set (fs[i := (fs ! i)\<lparr>out := b\<rparr>]). pureExec r f"
proof (cases "i < length fs")
  case True
  with assms have "pureExec r (fs ! i)" by simp
  then have "pureExec r ((fs ! i)\<lparr>out := b\<rparr>)" by (simp add: pureExec_def)
  with assms show ?thesis
    using set_update_subset_insert[of fs i] by blast
next
  case False
  with assms show ?thesis by (simp add: list_update_beyond)
qed

lemma exec_settled:
  fixes st :: "'u state" and s :: "'u schema"
  shows "pureSels ss \<Longrightarrow> decided r ss \<Longrightarrow> CtxErr (World st) = None \<Longrightarrow>
           settled r (\<lambda>r' st'. execSelections r' c ss path s res buf serially st')"
    and "\<forall>f\<in>set fs. pureExec r f \<Longrightarrow> CtxErr (World st) = None \<Longrightarrow>
           \<forall>i\<in>set ord. i < length fs \<longrightarrow>
             settled r (\<lambda>r' st'. execFieldSelection r' c s ((fs ! i)\<lparr>out := ''''\<rparr>)
                          (Some (PathSegment path (Key (Alias (field (fs ! i)))))) True st')"
    and "\<forall>f\<in>set fs. pureExec r f \<Longrightarrow> CtxErr (World st) = None \<Longrightarrow>
           settled r (\<lambda>r' st'. serialFields r' c s path fs st')"
    and "pureExec r f \<Longrightarrow> CtxErr (World st) = None \<Longrightarrow>
           settled r (\<lambda>r' st'. execFieldSelection r' c s f path applyLimiter st')"
    and "pureSels ss \<Longrightarrow> decided r ss \<Longrightarrow> CtxErr (World st) = None \<Longrightarrow>
           settled r (\<lambda>r' st'. execSelectionSet r' c ss ty path s res buf st')"
    and "pureSels ss \<Longrightarrow> decided r ss \<Longrightarrow> CtxErr (World st) = None \<Longrightarrow>
           settled r (\<lambda>r' st'. execList r' c ss ofType path s res buf st')"
    and "pureSels ss \<Longrightarrow> decided r ss \<Longrightarrow> CtxErr (World st) = None \<Longrightarrow> distinct ord \<Longrightarrow>
         0 < Limiter r \<or> vs = [] \<Longrightarrow>
           \<forall>i\<in>set ord. i < length vs \<longrightarrow>
             settled r (\<lambda>r' st'. execSelectionSet r' c ss ofType (Some (PathSegment path (Index i))) s
                          (vs ! i) (entryouts ! i) st')"
    and "pureSels ss \<Longrightarrow> decided r ss \<Longrightarrow> CtxErr (World st) = None \<Longrightarrow>
           settled r (\<lambda>r' st'. serialEntries r' c ss ofType path s i vs st')"
proof (induct r c ss path s res buf serially st
         and r c s path ord fs st
         and r c s path fs st
         and r c s f path applyLimiter st
         and r c ss ty path s res buf st
         and r c ss ofType path s res buf st
         and r c ss ofType path s vs ord entryouts st
         and r c ss ofType path s i vs st
       rule: execSelections_goFields_serialFields_execFieldSelection_execSelectionSet_execList_goEntries_serialEntries.induct)
  case (1 r c ss path s res buf serially st)
  have cv: "collectFieldsToResolve r' ss s res ([], Map.empty) = collectFieldsToResolve r ss s res ([], Map.empty)"
    if "variant r r'" for r'
    using that "1.prems"(2) by (rule collect_variant)
  show ?case
  proof (cases "collectFieldsToResolve r ss s res ([], Map.empty)")
    case (Inl pv)
    show ?thesis
    proof (rule settled_pure[where stat = "Panic pv" and b = buf])
      show "Panic pv \<noteq> Hang" by simp
    next
      fix r' and st' :: "'u state" assume v: "variant r r'"
      from cv[OF v] Inl show "execSelections r' c ss path s res buf serially st' = (Panic pv, buf, st')"
        by (subst execSelections.simps) simp
    qed
  next
    case (Inr acc)
    obtain fs m where b: "(fs, m) = acc" by (cases acc) auto
    from collect_pure[OF Inr "1.prems"(1,2)] b have pe: "\<forall>f\<in>set fs. pureExec r f" by auto
    show ?thesis
    proof (cases "\<not> serially \<and> HasAsyncSel ss")
      case False
      from "1.hyps"(2)[OF Inr b False pe "1.prems"(3)]
      have sub: "settled r (\<lambda>r' st'. serialFields r' c s path fs st')" .
      show ?thesis
      proof (rule settled_via[where g = "\<lambda>stat x. case stat of Normal \<Rightarrow> writeFields x buf | _ \<Rightarrow> buf", OF sub])
        fix r' and st' :: "'u state" assume v: "variant r r'" and n: "CtxErr (World st') = None"
        have "\<forall>stat x st2. serialFields r' c s path fs st' = (stat, x, st2) \<longrightarrow>
                 execSelections r' c ss path s res buf serially st'
                   = (stat, (case stat of Normal \<Rightarrow> writeFields x buf | _ \<Rightarrow> buf), st2)"
          using cv[OF v] Inr b[symmetric] False
          by (subst execSelections.simps) (auto split: status.splits)
        then have "World st' = World st' \<and> Errs st' = Errs st'
          \<and> (\<forall>stat x st2. serialFields r' c s path fs st' = (stat, x, st2) \<longrightarrow>
               (\<exists>st3. execSelections r' c ss path s res buf serially st'
                   = (stat, (case stat of Normal \<Rightarrow> writeFields x buf | _ \<Rightarrow> buf), st3)
                  \<and> World st3 = World st2 \<and> Errs st3 = Errs st2))"
          by simp
        then show "\<exists>st1. World st1 = World st' \<and> Errs st1 = Errs st'
          \<and> (\<forall>stat x st2. serialFields r' c s path fs st1 = (stat, x, st2) \<longrightarrow>
               (\<exists>st3. execSelections r' c ss path s res buf serially st'
                   = (stat, (case stat of Normal \<Rightarrow> writeFields x buf | _ \<Rightarrow> buf), st3)
                  \<and> World st3 = World st2 \<and> Errs st3 = Errs st2))"
          by (rule exI[of _ st'])
      qed
    next
      case True
      let ?run = "\<lambda>i r' st'. execFieldSelection r' c s ((fs ! i)\<lparr>out := ''''\<rparr>)
                          (Some (PathSegment path (Key (Alias (field (fs ! i)))))) True st'"
      show ?thesis
      proof (cases "Limiter r = 0")
        case l0: True
        show ?thesis
        proof (cases fs)
          case Nil
          show ?thesis
          proof (rule settled_pure[where stat = Normal and b = "writeFields ([] :: 'u fieldToExec list) buf"])
            show "Normal \<noteq> Hang" by simp
          next
            fix r' and st' :: "'u state" assume v: "variant r r'"
            have "validOrder (Sched r' (toSlice path) 0) 0 = []"
              using validOrder_order[of "Sched r' (toSlice path) 0" 0] by simp
            moreover have "goFields r' c s path [] [] st' = (Normal, [], st')"
              by (subst goFields.simps) simp
            ultimately show "execSelections r' c ss path s res buf serially st' = (Normal, writeFields ([] :: 'u fieldToExec list) buf, st')"
              using cv[OF v] Inr b[symmetric] True Nil
              by (subst execSelections.simps) simp
          qed
        next
          case (Cons f0 rest0)
          show ?thesis
          proof (rule settledI[where stat = Hang and b = buf and es = "{#}"])
            show "Hang = Hang \<Longrightarrow> Limiter r = 0" using l0 by simp
          next
            fix r' and st' :: "'u state" assume v: "variant r r'" and n: "CtxErr (World st') = None"
            from v l0 have l0': "Limiter r' = 0" by (simp add: variant_fields)
            define ord' where "ord' = validOrder (Sched r' (toSlice path) (length fs)) (length fs)"
            from validOrder_order[of "Sched r' (toSlice path) (length fs)" "length fs"]
            have so: "set ord' = {0..<length fs}" by (simp add: ord'_def)
            with Cons have "ord' \<noteq> []" by auto
            then obtain i rest where o: "ord' = i # rest" by (cases ord') auto
            with so have i: "i < length fs" by auto
            have e: "?run i r' st' = (Hang, '''', st')"
              using l0' by (subst execFieldSelection.simps) simp
            have "goFields r' c s path ord' fs st' = (Hang, fs[i := (fs ! i)\<lparr>out := ''''\<rparr>], st')"
              unfolding o using i e by (subst goFields.simps) simp
            then have "execSelections r' c ss path s res buf serially st' = (Hang, buf, st')"
              using cv[OF v] Inr b[symmetric] True
              by (subst execSelections.simps) (simp add: ord'_def)
            then show "\<exists>st'' new. execSelections r' c ss path s res buf serially st' = (Hang, buf, st'')
                \<and> World st'' = World st' \<and> Errs st'' = Errs st' @ new \<and> mset new = {#}"
              by simp
          qed
        qed
      next
        case lim: False
        from "1.hyps"(1)[OF Inr b True pe "1.prems"(3)]
          validOrder_order[of "Sched r (toSlice path) (length fs)" "length fs"]
        have each: "\<forall>i<length fs. settled r (?run i)" by simp
        have "\<forall>i. \<exists>D. i < length fs \<longrightarrow>
                fst D \<noteq> Hang \<and> settles r (?run i) (fst D) (fst (snd D)) (snd (snd D))"
        proof
          fix i
          show "\<exists>D. i < length fs \<longrightarrow>
                fst D \<noteq> Hang \<and> settles r (?run i) (fst D) (fst (snd D)) (snd (snd D))"
          proof (cases "i < length fs")
            case False
            then show ?thesis by simp
          next
            case True
            with each obtain stat x es where a: "settles r (?run i) stat x es"
              unfolding settled_def by blast
            with lim have "stat \<noteq> Hang" by (auto simp: settles_def)
            with a have "i < length fs \<longrightarrow>
                fst (stat, x, es) \<noteq> Hang
                  \<and> settles r (?run i) (fst (stat, x, es)) (fst (snd (stat, x, es))) (snd (snd (stat, x, es)))"
              by simp
            then show ?thesis by (rule exI[of _ "(stat, x, es)"])
          qed
        qed
        from choice[OF this] obtain D where
          D: "\<forall>i. i < length fs \<longrightarrow>
                fst (D i) \<noteq> Hang \<and> settles r (?run i) (fst (D i)) (fst (snd (D i))) (snd (snd (D i)))"
          by blast
        show ?thesis
        proof (rule settledI[where stat = Normal
              and b = "writeFields (map (\<lambda>j. (fs ! j)\<lparr>out := fst (snd (D j))\<rparr>) [0..<length fs]) buf"
              and es = "\<Sum>i\<in>#mset [0..<length fs]. snd (snd (D i)) + recovered r c (fst (D i))"])
          show "Normal = Hang \<Longrightarrow> Limiter r = 0" by simp
        next
          fix r' and st' :: "'u state" assume v: "variant r r'" and n: "CtxErr (World st') = None"
          define ord' where "ord' = validOrder (Sched r' (toSlice path) (length fs)) (length fs)"
          from validOrder_order[of "Sched r' (toSlice path) (length fs)" "length fs"]
          have d: "distinct ord'" and so: "set ord' = {0..<length fs}" and mo: "mset ord' = mset [0..<length fs]"
            by (simp_all add: ord'_def)
          from D so have p: "\<forall>i\<in>set ord'. i < length fs \<and> fst (D i) \<noteq> Hang
              \<and> settles r (?run i) (fst (D i)) (fst (snd (D i))) (snd (snd (D i)))"
            by simp
          from goFields_settles[OF v d n p] obtain st'' new where
            g: "goFields r' c s path ord' fs st' =
                 (Normal, map (\<lambda>j. if j \<in> set ord' then (fs ! j)\<lparr>out := fst (snd (D j))\<rparr> else fs ! j) [0..<length fs], st'')"
            and w: "World st'' = World st'" and e: "Errs st'' = Errs st' @ new"
            and m: "mset new = (\<Sum>i\<in>#mset ord'. snd (snd (D i)) + recovered r c (fst (D i)))"
            by blast
          have l: "map (\<lambda>j. if j \<in> set ord' then (fs ! j)\<lparr>out := fst (snd (D j))\<rparr> else fs ! j) [0..<length fs]
              = map (\<lambda>j. (fs ! j)\<lparr>out := fst (snd (D j))\<rparr>) [0..<length fs]"
            using so by simp
          from g have "goFields r' c s path ord' fs st' =
                 (Normal, map (\<lambda>j. (fs ! j)\<lparr>out := fst (snd (D j))\<rparr>) [0..<length fs], st'')"
            unfolding l .
          note g' = this[unfolded ord'_def]
          from g' have "execSelections r' c ss path s res buf serially st'
              = (Normal, writeFields (map (\<lambda>j. (fs ! j)\<lparr>out := fst (snd (D j))\<rparr>) [0..<length fs]) buf, st'')"
            using cv[OF v] Inr b[symmetric] True
            by (subst execSelections.simps) simp
          with w e m mo show "\<exists>st'' new. execSelections r' c ss path s res buf serially st'
              = (Normal, writeFields (map (\<lambda>j. (fs ! j)\<lparr>out := fst (snd (D j))\<rparr>) [0..<length fs]) buf, st'')
              \<and> World st'' = World st' \<and> Errs st'' = Errs st' @ new
              \<and> mset new = (\<Sum>i\<in>#mset [0..<length fs]. snd (snd (D i)) + recovered r c (fst (D i)))"
            by simp
        qed
      qed
    qed
  qed
next
  case (2 r c s path ord fs st)
  let ?run = "\<lambda>fs i r' st'. execFieldSelection r' c s ((fs ! i)\<lparr>out := ''''\<rparr>)
                          (Some (PathSegment path (Key (Alias (field (fs ! i)))))) True st'"
  show ?case
  proof (cases "Limiter r = 0")
    case True
    show ?thesis
    proof (intro ballI impI)
      fix i assume "i \<in> set ord" "i < length fs"
      show "settled r (?run fs i)"
      proof (rule settledI[where stat = Hang and b = "''''" and es = "{#}"])
        show "Hang = Hang \<Longrightarrow> Limiter r = 0" using True by simp
      next
        fix r' and st' :: "'u state" assume v: "variant r r'" and n: "CtxErr (World st') = None"
        from v True have "Limiter r' = 0" by (simp add: variant_fields)
        then have "?run fs i r' st' = (Hang, '''', st')"
          by (subst execFieldSelection.simps) simp
        then show "\<exists>st'' new. ?run fs i r' st' = (Hang, '''', st'')
            \<and> World st'' = World st' \<and> Errs st'' = Errs st' @ new \<and> mset new = {#}"
          by simp
      qed
    qed
  next
    case lim: False
    show ?thesis
    proof (cases ord)
      case Nil
      then show ?thesis by simp
    next
      case (Cons i rest)
      show ?thesis
      proof (cases "i < length fs")
        case False
        from "2.hyps"(4)[OF Cons False "2.prems"]
        have "\<forall>j\<in>set rest. j < length fs \<longrightarrow> settled r (?run fs j)" .
        with Cons False show ?thesis by simp
      next
        case True
        from "2.prems"(1) True have "pureExec r (fs ! i)" by simp
        then have pe: "pureExec r ((fs ! i)\<lparr>out := ''''\<rparr>)" by (simp add: pureExec_def)
        from "2.hyps"(1)[OF Cons True pe "2.prems"(2)]
        have hd: "settled r (?run fs i)" .
        then obtain stat b es where sh: "settles r (?run fs i) stat b es"
          unfolding settled_def by blast
        from sh variant_refl[of r] "2.prems"(2) obtain st1 new where
          e: "?run fs i r st = (stat, b, st1)" and w: "World st1 = World st"
          unfolding settles_def by blast
        from sh lim have nh: "stat \<noteq> Hang" by (auto simp: settles_def)
        from w "2.prems"(2) have n1: "CtxErr (World st1) = None" by simp
        then have n2: "CtxErr (World (handlePanic r c pv st1)) = None" for pv
          by (simp add: handlePanic_def AddError_def)
        note pe1 = pureExec_out[OF "2.prems"(1), of i b]
        have tl: "\<forall>j\<in>set rest. j < length (fs[i := (fs ! i)\<lparr>out := b\<rparr>]) \<longrightarrow>
                    settled r (?run (fs[i := (fs ! i)\<lparr>out := b\<rparr>]) j)"
        proof (cases stat)
          case Normal
          from "2.hyps"(2)[OF Cons True e[symmetric] Normal refl pe1 n1] show ?thesis .
        next
          case (Panic pv)
          from "2.hyps"(3)[OF Cons True e[symmetric] Panic refl pe1 n2] show ?thesis .
        next
          case Hang
          with nh show ?thesis by simp
        qed
        have "\<forall>j\<in>set rest. j < length fs \<longrightarrow> settled r (?run fs j)"
        proof (intro ballI impI)
          fix j assume j: "j \<in> set rest" "j < length fs"
          with tl have "settled r (?run (fs[i := (fs ! i)\<lparr>out := b\<rparr>]) j)" by simp
          with j(2) show "settled r (?run fs j)" by (simp only: out_reset out_field)
        qed
        with hd Cons show ?thesis by simp
      qed
    qed
  qed
next
  case (3 r c s path fs st)
  show ?case
  proof (cases fs)
    case Nil
    show ?thesis unfolding Nil
    proof (rule settled_pure[where stat = Normal and b = "[]"])
      show "Normal \<noteq> Hang" by simp
    next
      fix r' and st' :: "'u state" assume "variant r r'"
      show "serialFields r' c s path [] st' = (Normal, [], st')"
        by (subst serialFields.simps) simp
    qed
  next
    case (Cons f rest)
    let ?run1 = "\<lambda>r' st'. execFieldSelection r' c s (f\<lparr>out := ''''\<rparr>)
                    (Some (PathSegment path (Key (Alias (field f))))) True st'"
    from "3.prems"(1) Cons have "pureExec r f" and per: "\<forall>f\<in>set rest. pureExec r f" by simp_all
    then have pe: "pureExec r (f\<lparr>out := ''''\<rparr>)" by (simp add: pureExec_def)
    from "3.hyps"(1)[OF Cons pe "3.prems"(2)] obtain stat b es where
      hd: "settles r ?run1 stat b es" unfolding settled_def by blast
    from hd variant_refl[of r] "3.prems"(2) obtain st1 new where
      e: "?run1 r st = (stat, b, st1)" and w: "World st1 = World st"
      unfolding settles_def by blast
    from w "3.prems"(2) have n1: "CtxErr (World st1) = None" by simp
    have rest: "stat = Normal \<Longrightarrow> settled r (\<lambda>r' st'. serialFields r' c s path rest st')"
      using "3.hyps"(2)[OF Cons e[symmetric] _ refl per n1] by simp
    show ?thesis unfolding Cons
    proof (rule settled_seq[where ?run1.0 = ?run1 and ?run2.0 = "\<lambda>r' st'. serialFields r' c s path rest st'"
            and g = "\<lambda>x. f\<lparr>out := b\<rparr> # x" and k = "f\<lparr>out := b\<rparr> # rest", OF hd rest])
      fix r' and st' st1' st2' :: "'u state" and stat2 x
      assume "variant r r'" "stat = Normal" "?run1 r' st' = (Normal, b, st1')"
        "serialFields r' c s path rest st1' = (stat2, x, st2')"
      then show "serialFields r' c s path (f # rest) st' = (stat2, f\<lparr>out := b\<rparr> # x, st2')"
        by (subst serialFields.simps) simp
    next
      fix r' and st' st1' :: "'u state"
      assume "variant r r'" "stat \<noteq> Normal" "?run1 r' st' = (stat, b, st1')"
      then show "serialFields r' c s path (f # rest) st' = (stat, f\<lparr>out := b\<rparr> # rest, st1')"
        by (subst serialFields.simps) (cases stat, simp_all)
    qed
  qed
next
  case (4 r c s f path applyLimiter st)
  show ?case
  proof (cases "applyLimiter \<and> Limiter r = 0")
    case True
    show ?thesis
    proof (rule settledI[where stat = Hang and b = "out f" and es = "{#}"])
      show "Hang = Hang \<Longrightarrow> Limiter r = 0" using True by simp
    next
      fix r' and st' :: "'u state" assume v: "variant r r'" and n: "CtxErr (World st') = None"
      from v True have "applyLimiter \<and> Limiter r' = 0" by (simp add: variant_fields)
      then have "execFieldSelection r' c s f path applyLimiter st' = (Hang, out f, st')"
        by (subst execFieldSelection.simps) simp
      then show "\<exists>st'' new. execFieldSelection r' c s f path applyLimiter st' = (Hang, out f, st'')
          \<and> World st'' = World st' \<and> Errs st'' = Errs st' @ new \<and> mset new = {#}"
        by simp
    qed
  next
    case False
    obtain tc res err st1 where e: "(tc, res, err, st1) =
        resolveField r c (traceField r c (field f)) f path (startSpan (field f) st)"
      by (metis prod_cases4)
    from "4.prems"(1) have pf: "FixedResult (field f) \<noteq> Invalid \<or> pureField (field f)"
      and ps: "pureSels (sels f)" "decided r (sels f)"
      by (simp_all add: pureExec_def)
    have n0: "CtxErr (World (startSpan (field f) st)) = None"
      using "4.prems"(2) by (simp add: startSpan_def)
    have rs: "\<exists>st1'. resolveField r' c (traceField r' c (field f)) f path (startSpan (field f) st')
                 = (tc, res, err, st1') \<and> World st1' = World st' \<and> Errs st1' = Errs st'"
      if v: "variant r r'" and n: "CtxErr (World st') = None" for r' and st' :: "'u state"
    proof -
      from v have t: "traceField r' c (field f) = traceField r c (field f)"
        and ph: "PanicHandler r' = PanicHandler r"
        by (simp_all add: traceField_def variant_fields)
      from n have n': "CtxErr (World (startSpan (field f) st')) = None" by (simp add: startSpan_def)
      from resolveField_settled[OF pf n0 n' ph e[symmetric]] t show ?thesis
        by (simp add: startSpan_def)
    qed
    from rs[OF variant_refl "4.prems"(2)] e have w1: "World st1 = World st"
      by (metis prod.inject)
    with "4.prems"(2) have n1: "CtxErr (World st1) = None" by simp
    show ?thesis
    proof (cases err)
      case (Some er)
      show ?thesis
      proof (rule settledI[where stat = Normal and b = "out f @ ''null''" and es = "{#er#}"])
        show "Normal = Hang \<Longrightarrow> Limiter r = 0" by simp
      next
        fix r' and st' :: "'u state" assume v: "variant r r'" and n: "CtxErr (World st') = None"
        from rs[OF v n] obtain st1' where
          a: "resolveField r' c (traceField r' c (field f)) f path (startSpan (field f) st') = (tc, res, err, st1')"
          and b: "World st1' = World st'" "Errs st1' = Errs st'"
          by blast
        from v False have f': "\<not> (applyLimiter \<and> Limiter r' = 0)" by (simp add: variant_fields)
        have "execFieldSelection r' c s f path applyLimiter st'
            = (Normal, out f @ ''null'', finish (Some er) (AddError er st1'))"
          using f' a Some by (subst execFieldSelection.simps) simp
        with b have "execFieldSelection r' c s f path applyLimiter st'
            = (Normal, out f @ ''null'', finish (Some er) (AddError er st1'))
          \<and> World (finish (Some er) (AddError er st1')) = World st'
          \<and> Errs (finish (Some er) (AddError er st1')) = Errs st' @ [er] \<and> mset [er] = {#er#}"
          by (simp add: finish_def AddError_def)
        then show "\<exists>st'' new. execFieldSelection r' c s f path applyLimiter st' = (Normal, out f @ ''null'', st'')
            \<and> World st'' = World st' \<and> Errs st'' = Errs st' @ new \<and> mset new = {#er#}"
          by blast
      qed
    next
      case None
      from "4.hyps"[OF False e refl refl None ps n1]
      have sub: "settled r (\<lambda>r' st'. execSelectionSet r' tc (sels f) (Type (field f)) path s res (out f) st')" .
      show ?thesis
      proof (rule settled_via[where g = "\<lambda>stat x. x", OF sub])
        fix r' and st' :: "'u state" assume v: "variant r r'" and n: "CtxErr (World st') = None"
        from rs[OF v n] obtain st1' where
          a: "resolveField r' c (traceField r' c (field f)) f path (startSpan (field f) st') = (tc, res, err, st1')"
          and b: "World st1' = World st'" "Errs st1' = Errs st'"
          by blast
        from v False have f': "\<not> (applyLimiter \<and> Limiter r' = 0)" by (simp add: variant_fields)
        have "\<forall>stat x st2. execSelectionSet r' tc (sels f) (Type (field f)) path s res (out f) st1' = (stat, x, st2) \<longrightarrow>
                 execFieldSelection r' c s f path applyLimiter st' = (stat, x, finish None st2)"
          using f' a None by (subst execFieldSelection.simps) auto
        then have "\<forall>stat x st2. execSelectionSet r' tc (sels f) (Type (field f)) path s res (out f) st1' = (stat, x, st2) \<longrightarrow>
                 (\<exists>st3. execFieldSelection r' c s f path applyLimiter st' = (stat, x, st3)
                    \<and> World st3 = World st2 \<and> Errs st3 = Errs st2)"
          by (simp add: finish_def)
        with b have "World st1' = World st' \<and> Errs st1' = Errs st'
          \<and> (\<forall>stat x st2. execSelectionSet r' tc (sels f) (Type (field f)) path s res (out f) st1' = (stat, x, st2) \<longrightarrow>
                 (\<exists>st3. execFieldSelection r' c s f path applyLimiter st' = (stat, x, st3)
                    \<and> World st3 = World st2 \<and> Errs st3 = Errs st2))"
          by simp
        then show "\<exists>st1. World st1 = World st' \<and> Errs st1 = Errs st'
          \<and> (\<forall>stat x st2. execSelectionSet r' tc (sels f) (Type (field f)) path s res (out f) st1 = (stat, x, st2) \<longrightarrow>
                 (\<exists>st3. execFieldSelection r' c s f path applyLimiter st' = (stat, x, st3)
                    \<and> World st3 = World st2 \<and> Errs st3 = Errs st2))"
          by (rule exI[of _ st1'])
      qed
    qed
  qed
next
  case (5 r c ss ty path s res buf st)
  obtain t nn where u: "(t, nn) = unwrapNonNull ty" by (metis prod.exhaust)
  show ?case
  proof (cases "res = Invalid \<or> res = NilRef")
    case True
    show ?thesis
    proof (cases nn)
      case nt: True
      show ?thesis
      proof (rule settled_error[where stat = Normal and b = "buf @ ''null''" and e = "gotNil t path"])
        show "Normal \<noteq> Hang" by simp
      next
        fix r' and st' :: "'u state" assume "variant r r'"
        from u[symmetric] True nt
        show "execSelectionSet r' c ss ty path s res buf st' = (Normal, buf @ ''null'', AddError (gotNil t path) st')"
          by (subst execSelectionSet.simps) simp
      qed
    next
      case nf: False
      show ?thesis
      proof (rule settled_pure[where stat = Normal and b = "buf @ ''null''"])
        show "Normal \<noteq> Hang" by simp
      next
        fix r' and st' :: "'u state" assume "variant r r'"
        from u[symmetric] True nf
        show "execSelectionSet r' c ss ty path s res buf st' = (Normal, buf @ ''null'', st')"
          by (subst execSelectionSet.simps) simp
      qed
    qed
  next
    case False
    show ?thesis
    proof (cases t)
      case (NonNull t')
      show ?thesis
      proof (rule settled_pure[where stat = "Panic (PanicMsg ''unreachable'')" and b = buf])
        show "Panic (PanicMsg ''unreachable'') \<noteq> Hang" by simp
      next
        fix r' and st' :: "'u state" assume "variant r r'"
        from u[symmetric] False NonNull
        show "execSelectionSet r' c ss ty path s res buf st' = (Panic (PanicMsg ''unreachable''), buf, st')"
          by (subst execSelectionSet.simps) simp
      qed
    next
      case (ListOf ofType)
      from "5.hyps"(1)[OF u False ListOf "5.prems"]
      have sub: "settled r (\<lambda>r' st'. execList r' c ss ofType path s (elemOf res) buf st')" .
      show ?thesis
      proof (rule settled_eq[OF sub])
        fix r' and st' :: "'u state" assume "variant r r'"
        from u[symmetric] False ListOf
        show "execSelectionSet r' c ss ty path s res buf st' = execList r' c ss ofType path s (elemOf res) buf st'"
          by (subst execSelectionSet.simps) simp
      qed
    next
      case (ObjectTypeDefinition n)
      from "5.hyps"(2)[OF u False ObjectTypeDefinition "5.prems"]
      have sub: "settled r (\<lambda>r' st'. execSelections r' c ss path s res buf False st')" .
      show ?thesis
      proof (rule settled_eq[OF sub])
        fix r' and st' :: "'u state" assume "variant r r'"
        from u[symmetric] False ObjectTypeDefinition
        show "execSelectionSet r' c ss ty path s res buf st' = execSelections r' c ss path s res buf False st'"
          by (subst execSelectionSet.simps) simp
      qed
    next
      case (InterfaceTypeDefinition n)
      from "5.hyps"(3)[OF u False InterfaceTypeDefinition "5.prems"]
      have sub: "settled r (\<lambda>r' st'. execSelections r' c ss path s res buf False st')" .
      show ?thesis
      proof (rule settled_eq[OF sub])
        fix r' and st' :: "'u state" assume "variant r r'"
        from u[symmetric] False InterfaceTypeDefinition
        show "execSelectionSet r' c ss ty path s res buf st' = execSelections r' c ss path s res buf False st'"
          by (subst execSelectionSet.simps) simp
      qed
    next
      case (UnionDefinition n)
      from "5.hyps"(4)[OF u False UnionDefinition "5.prems"]
      have sub: "settled r (\<lambda>r' st'. execSelections r' c ss path s res buf False st')" .
      show ?thesis
      proof (rule settled_eq[OF sub])
        fix r' and st' :: "'u state" assume "variant r r'"
        from u[symmetric] False UnionDefinition
        show "execSelectionSet r' c ss ty path s res buf st' = execSelections r' c ss path s res buf False st'"
          by (subst execSelectionSet.simps) simp
      qed
    next
      case (ScalarTypeDefinition n)
      show ?thesis
      proof (cases "Marshal r (elemOf res)")
        case (Inl err)
        show ?thesis
        proof (rule settled_pure[where stat = "Panic (CouldNotMarshal (elemOf res) err)" and b = buf])
          show "Panic (CouldNotMarshal (elemOf res) err) \<noteq> Hang" by simp
        next
          fix r' and st' :: "'u state" assume "variant r r'"
          then have "Marshal r' = Marshal r" by (simp add: variant_fields)
          with u[symmetric] False ScalarTypeDefinition Inl
          show "execSelectionSet r' c ss ty path s res buf st' = (Panic (CouldNotMarshal (elemOf res) err), buf, st')"
            by (subst execSelectionSet.simps) simp
        qed
      next
        case (Inr data)
        show ?thesis
        proof (rule settled_pure[where stat = Normal and b = "buf @ data"])
          show "Normal \<noteq> Hang" by simp
        next
          fix r' and st' :: "'u state" assume "variant r r'"
          then have "Marshal r' = Marshal r" by (simp add: variant_fields)
          with u[symmetric] False ScalarTypeDefinition Inr
          show "execSelectionSet r' c ss ty path s res buf st' = (Normal, buf @ data, st')"
            by (subst execSelectionSet.simps) simp
        qed
      qed
    next
      case (EnumTypeDefinition n vals)
      show ?thesis
      proof (cases "StringOf r (elemOf res) \<in> set vals")
        case True
        show ?thesis
        proof (rule settled_pure[where stat = Normal
              and b = "buf @ [CHR 0x22] @ StringOf r (elemOf res) @ [CHR 0x22]"])
          show "Normal \<noteq> Hang" by simp
        next
          fix r' and st' :: "'u state" assume "variant r r'"
          then have "StringOf r' = StringOf r" by (simp add: variant_fields)
          with u[symmetric] False EnumTypeDefinition True
          show "execSelectionSet r' c ss ty path s res buf st'
              = (Normal, buf @ [CHR 0x22] @ StringOf r (elemOf res) @ [CHR 0x22], st')"
            by (subst execSelectionSet.simps) simp
        qed
      next
        case nv: False
        show ?thesis
        proof (rule settled_error[where stat = Normal and b = "buf @ ''null''"
              and e = "invalidEnum (StringOf r (elemOf res)) n path"])
          show "Normal \<noteq> Hang" by simp
        next
          fix r' and st' :: "'u state" assume "variant r r'"
          then have "StringOf r' = StringOf r" by (simp add: variant_fields)
          with u[symmetric] False EnumTypeDefinition nv
          show "execSelectionSet r' c ss ty path s res buf st'
              = (Normal, buf @ ''null'', AddError (invalidEnum (StringOf r (elemOf res)) n path) st')"
            by (subst execSelectionSet.simps) simp
        qed
      qed
    next
      case (InputObject n)
      show ?thesis
      proof (rule settled_pure[where stat = "Panic (PanicMsg ''unreachable'')" and b = buf])
        show "Panic (PanicMsg ''unreachable'') \<noteq> Hang" by simp
      next
        fix r' and st' :: "'u state" assume "variant r r'"
        from u[symmetric] False InputObject
        show "execSelectionSet r' c ss ty path s res buf st' = (Panic (PanicMsg ''unreachable''), buf, st')"
          by (subst execSelectionSet.simps) simp
      qed
    qed
  qed
next
  case (6 r c ss ofType path s res buf st)
  show ?case
  proof (cases "listValues res")
    case (Inr vs)
    show ?thesis
    proof (cases "HasAsyncSel ss")
      case False
      from "6.hyps"(2)[OF Inr False "6.prems"]
      have sub: "settled r (\<lambda>r' st'. serialEntries r' c ss ofType path s 0 vs st')" .
      show ?thesis
      proof (rule settled_via[where g = "\<lambda>stat x. case stat of Normal \<Rightarrow> writeEntries ofType x buf | _ \<Rightarrow> buf", OF sub])
        fix r' and st' :: "'u state" assume v: "variant r r'" and n: "CtxErr (World st') = None"
        have "\<forall>stat x st2. serialEntries r' c ss ofType path s 0 vs st' = (stat, x, st2) \<longrightarrow>
                 execList r' c ss ofType path s res buf st'
                   = (stat, (case stat of Normal \<Rightarrow> writeEntries ofType x buf | _ \<Rightarrow> buf), st2)"
          using Inr False
          by (subst execList.simps) (auto split: status.splits)
        then have "World st' = World st' \<and> Errs st' = Errs st'
          \<and> (\<forall>stat x st2. serialEntries r' c ss ofType path s 0 vs st' = (stat, x, st2) \<longrightarrow>
               (\<exists>st3. execList r' c ss ofType path s res buf st'
                   = (stat, (case stat of Normal \<Rightarrow> writeEntries ofType x buf | _ \<Rightarrow> buf), st3)
                  \<and> World st3 = World st2 \<and> Errs st3 = Errs st2))"
          by simp
        then show "\<exists>st1. World st1 = World st' \<and> Errs st1 = Errs st'
          \<and> (\<forall>stat x st2. serialEntries r' c ss ofType path s 0 vs st1 = (stat, x, st2) \<longrightarrow>
               (\<exists>st3. execList r' c ss ofType path s res buf st'
                   = (stat, (case stat of Normal \<Rightarrow> writeEntries ofType x buf | _ \<Rightarrow> buf), st3)
                  \<and> World st3 = World st2 \<and> Errs st3 = Errs st2))"
          by (rule exI[of _ st'])
      qed
    next
      case True
      let ?run = "\<lambda>i r' st'. execSelectionSet r' c ss ofType (Some (PathSegment path (Index i))) s
                          (vs ! i) '''' st'"
      show ?thesis
      proof (cases "0 < length vs \<and> Limiter r = 0")
        case h: True
        show ?thesis
        proof (rule settledI[where stat = Hang and b = buf and es = "{#}"])
          show "Hang = Hang \<Longrightarrow> Limiter r = 0" using h by simp
        next
          fix r' and st' :: "'u state" assume v: "variant r r'" and n: "CtxErr (World st') = None"
          from v h have "0 < length vs \<and> Limiter r' = 0" by (simp add: variant_fields)
          with Inr True have "execList r' c ss ofType path s res buf st' = (Hang, buf, st')"
            by (subst execList.simps) simp
          then show "\<exists>st'' new. execList r' c ss ofType path s res buf st' = (Hang, buf, st'')
              \<and> World st'' = World st' \<and> Errs st'' = Errs st' @ new \<and> mset new = {#}"
            by simp
        qed
      next
        case h: False
        then have lv: "0 < Limiter r \<or> vs = []" by auto
        note vo = validListOrder_order[of "Sched r (toSlice path) (length vs)" "length vs" "Limiter r"]
        from vo have d0: "distinct (validListOrder (Sched r (toSlice path) (length vs)) (length vs) (Limiter r))"
          by simp
        from "6.hyps"(1)[OF Inr True h "6.prems" d0 lv] vo
        have each: "\<forall>i<length vs. settled r (?run i)" by simp
        have "\<forall>i. \<exists>D. i < length vs \<longrightarrow>
                fst D \<noteq> Hang \<and> settles r (?run i) (fst D) (fst (snd D)) (snd (snd D))"
        proof
          fix i
          show "\<exists>D. i < length vs \<longrightarrow>
                fst D \<noteq> Hang \<and> settles r (?run i) (fst D) (fst (snd D)) (snd (snd D))"
          proof (cases "i < length vs")
            case False
            then show ?thesis by simp
          next
            case True
            with each obtain stat x es where a: "settles r (?run i) stat x es"
              unfolding settled_def by blast
            from True lv have "0 < Limiter r" by auto
            with a have "stat \<noteq> Hang" by (auto simp: settles_def)
            with a have "i < length vs \<longrightarrow>
                fst (stat, x, es) \<noteq> Hang
                  \<and> settles r (?run i) (fst (stat, x, es)) (fst (snd (stat, x, es))) (snd (snd (stat, x, es)))"
              by simp
            then show ?thesis by (rule exI[of _ "(stat, x, es)"])
          qed
        qed
        from choice[OF this] obtain D where
          D: "\<forall>i. i < length vs \<longrightarrow>
                fst (D i) \<noteq> Hang \<and> settles r (?run i) (fst (D i)) (fst (snd (D i))) (snd (snd (D i)))"
          by blast
        show ?thesis
        proof (rule settledI[where stat = Normal
              and b = "writeEntries ofType (map (\<lambda>j. fst (snd (D j))) [0..<length vs]) buf"
              and es = "\<Sum>i\<in>#mset [0..<length vs]. snd (snd (D i)) + recovered r c (fst (D i))"])
          show "Normal = Hang \<Longrightarrow> Limiter r = 0" by simp
        next
          fix r' and st' :: "'u state" assume v: "variant r r'" and n: "CtxErr (World st') = None"
          from v have lr: "Limiter r' = Limiter r" by (simp add: variant_fields)
          define ord' where "ord' = validListOrder (Sched r' (toSlice path) (length vs)) (length vs) (Limiter r')"
          from validListOrder_order[of "Sched r' (toSlice path) (length vs)" "length vs" "Limiter r'"]
          have d: "distinct ord'" and so: "set ord' = {0..<length vs}" and mo: "mset ord' = mset [0..<length vs]"
            by (simp_all add: ord'_def)
          from D so have p: "\<forall>i\<in>set ord'. i < length vs \<and> i < length (replicate (length vs) (''''::string))
              \<and> fst (D i) \<noteq> Hang
              \<and> settles r (\<lambda>r' st'. execSelectionSet r' c ss ofType (Some (PathSegment path (Index i))) s
                          (vs ! i) (replicate (length vs) '''' ! i) st')
                   (fst (D i)) (fst (snd (D i))) (snd (snd (D i)))"
            by simp
          from goEntries_settles[OF v d n p] obtain st'' new where
            g: "goEntries r' c ss ofType path s vs ord' (replicate (length vs) '''') st' =
                 (Normal, map (\<lambda>j. if j \<in> set ord' then fst (snd (D j)) else replicate (length vs) '''' ! j)
                            [0..<length (replicate (length vs) (''''::string))], st'')"
            and w: "World st'' = World st'" and e: "Errs st'' = Errs st' @ new"
            and m: "mset new = (\<Sum>i\<in>#mset ord'. snd (snd (D i)) + recovered r c (fst (D i)))"
            by blast
          have l: "map (\<lambda>j. if j \<in> set ord' then fst (snd (D j)) else replicate (length vs) '''' ! j)
                            [0..<length (replicate (length vs) (''''::string))]
              = map (\<lambda>j. fst (snd (D j))) [0..<length vs]"
            using so by simp
          from h lr have h': "\<not> (0 < length vs \<and> Limiter r' = 0)" by simp
          from g have "goEntries r' c ss ofType path s vs ord' (replicate (length vs) '''') st' =
                 (Normal, map (\<lambda>j. fst (snd (D j))) [0..<length vs], st'')"
            unfolding l .
          note g' = this[unfolded ord'_def]
          from g' have "execList r' c ss ofType path s res buf st'
              = (Normal, writeEntries ofType (map (\<lambda>j. fst (snd (D j))) [0..<length vs]) buf, st'')"
            using Inr True h'
            by (subst execList.simps) simp
          with w e m mo show "\<exists>st'' new. execList r' c ss ofType path s res buf st'
              = (Normal, writeEntries ofType (map (\<lambda>j. fst (snd (D j))) [0..<length vs]) buf, st'')
              \<and> World st'' = World st' \<and> Errs st'' = Errs st' @ new
              \<and> mset new = (\<Sum>i\<in>#mset [0..<length vs]. snd (snd (D i)) + recovered r c (fst (D i)))"
            by simp
        qed
      qed
    qed
  next
    case (Inl pv)
    show ?thesis
    proof (rule settled_pure[where stat = "Panic pv" and b = buf])
      show "Panic pv \<noteq> Hang" by simp
    next
      fix r' and st' :: "'u state" assume "variant r r'"
      from Inl show "execList r' c ss ofType path s res buf st' = (Panic pv, buf, st')"
        by (subst execList.simps) simp
    qed
  qed
next
  case (7 r c ss ofType path s vs ord entryouts st)
  let ?run = "\<lambda>eo i r' st'. execSelectionSet r' c ss ofType (Some (PathSegment path (Index i))) s
                          (vs ! i) (eo ! i) st'"
  show ?case
  proof (cases ord)
    case Nil
    then show ?thesis by simp
  next
    case (Cons i rest)
    from "7.prems"(4) Cons have d: "distinct rest" and ni: "i \<notin> set rest" by simp_all
    show ?thesis
    proof (cases "i < length vs")
      case False
      from "7.hyps"(4)[OF Cons False "7.prems"(1,2,3) d "7.prems"(5)]
      have "\<forall>j\<in>set rest. j < length vs \<longrightarrow> settled r (?run entryouts j)" .
      with Cons False show ?thesis by simp
    next
      case True
      with "7.prems"(5) have lim: "0 < Limiter r" by auto
      from "7.hyps"(1)[OF Cons True "7.prems"(1,2,3)]
      have hd: "settled r (?run entryouts i)" .
      then obtain stat b es where sh: "settles r (?run entryouts i) stat b es"
        unfolding settled_def by blast
      from sh variant_refl[of r] "7.prems"(3) obtain st1 new where
        e: "?run entryouts i r st = (stat, b, st1)" and w: "World st1 = World st"
        unfolding settles_def by blast
      from sh lim have nh: "stat \<noteq> Hang" by (auto simp: settles_def)
      from w "7.prems"(3) have n1: "CtxErr (World st1) = None" by simp
      then have n2: "CtxErr (World (handlePanic r c pv st1)) = None" for pv
        by (simp add: handlePanic_def AddError_def)
      have tl: "\<forall>j\<in>set rest. j < length vs \<longrightarrow> settled r (?run (entryouts[i := b]) j)"
      proof (cases stat)
        case Normal
        from "7.hyps"(2)[OF Cons True e[symmetric] Normal refl "7.prems"(1,2) n1 d "7.prems"(5)]
        show ?thesis .
      next
        case (Panic pv)
        from "7.hyps"(3)[OF Cons True e[symmetric] Panic refl "7.prems"(1,2) n2 d "7.prems"(5)]
        show ?thesis .
      next
        case Hang
        with nh show ?thesis by simp
      qed
      have "\<forall>j\<in>set rest. j < length vs \<longrightarrow> settled r (?run entryouts j)"
      proof (intro ballI impI)
        fix j assume j: "j \<in> set rest" "j < length vs"
        with tl have a: "settled r (?run (entryouts[i := b]) j)" by simp
        from j(1) ni have "i \<noteq> j" by auto
        then have "entryouts[i := b] ! j = entryouts ! j" by simp
        with a show "settled r (?run entryouts j)" by simp
      qed
      with hd Cons show ?thesis by simp
    qed
  qed
next
  case (8 r c ss ofType path s i vs st)
  show ?case
  proof (cases vs)
    case Nil
    show ?thesis unfolding Nil
    proof (rule settled_pure[where stat = Normal and b = "[]"])
      show "Normal \<noteq> Hang" by simp
    next
      fix r' and st' :: "'u state" assume "variant r r'"
      show "serialEntries r' c ss ofType path s i [] st' = (Normal, [], st')"
        by (subst serialEntries.simps) simp
    qed
  next
    case (Cons v rest)
    let ?run1 = "\<lambda>r' st'. execSelectionSet r' c ss ofType (Some (PathSegment path (Index i))) s v '''' st'"
    from "8.hyps"(1)[OF Cons "8.prems"] obtain stat b es where
      hd: "settles r ?run1 stat b es" unfolding settled_def by blast
    from hd variant_refl[of r] "8.prems"(3) obtain st1 new where
      e: "?run1 r st = (stat, b, st1)" and w: "World st1 = World st"
      unfolding settles_def by blast
    from w "8.prems"(3) have n1: "CtxErr (World st1) = None" by simp
    have rest: "stat = Normal \<Longrightarrow> settled r (\<lambda>r' st'. serialEntries r' c ss ofType path s (Suc i) rest st')"
      using "8.hyps"(2)[OF Cons e[symmetric] _ refl "8.prems"(1,2) n1] by simp
    show ?thesis unfolding Cons
    proof (rule settled_seq[where ?run1.0 = ?run1
            and ?run2.0 = "\<lambda>r' st'. serialEntries r' c ss ofType path s (Suc i) rest st'"
            and g = "\<lambda>x. b # x" and k = "[b]", OF hd rest])
      fix r' and st' st1' st2' :: "'u state" and stat2 x
      assume "variant r r'" "stat = Normal" "?run1 r' st' = (Normal, b, st1')"
        "serialEntries r' c ss ofType path s (Suc i) rest st1' = (stat2, x, st2')"
      then show "serialEntries r' c ss ofType path s i (v # rest) st' = (stat2, b # x, st2')"
        by (subst serialEntries.simps) simp
    next
      fix r' and st' st1' :: "'u state"
      assume "variant r r'" "stat \<noteq> Normal" "?run1 r' st' = (stat, b, st1')"
      then show "serialEntries r' c ss ofType path s i (v # rest) st' = (stat, [b], st1')"
        by (subst serialEntries.simps) (cases stat, simp_all)
    qed
  qed
qed

lemma pureSels_kindQuery: "pureSels kindQuery"
  by (simp add: kind_defs pureField_def exField_def)

text \<open>
  Claim C9, as amended. For a query whose resolvers are all pure and whose
  \<^verbatim>\<open>__typename\<close> selections are decided by their type assertions, executed under a live
  context, a run under any other map iteration order and any other schedule of the
  goroutines gives the same response: it returns exactly when the first run does, with
  byte-equal data and with the same errors up to their order. The name that \<^verbatim>\<open>typeOf\<close>
  gives for decided type assertions is the same in both runs.
\<close>

theorem pure_runs_agree_when_typename_is_decided:
  fixes st :: "'u state" and s :: "'u schema"
  assumes "pureSels ss" and "decided r ss" and "CtxErr (World st) = None"
  shows "response (r\<lparr>MapOrder := mo, Sched := sc\<rparr>) c s opType (Inr ss) validateSelections st
           = response r c s opType (Inr ss) validateSelections st
         \<and> (\<forall>tas. decidedTypename r tas \<longrightarrow>
               typeOf (r\<lparr>MapOrder := mo, Sched := sc\<rparr>) name tas v = typeOf r name tas v)"
proof -
  let ?r' = "r\<lparr>MapOrder := mo, Sched := sc\<rparr>"
  have v: "variant r ?r'" unfolding variant_def by blast
  have ph: "PanicHandler ?r' = PanicHandler r" by simp
  have t: "\<forall>tas. decidedTypename r tas \<longrightarrow> typeOf ?r' name tas v = typeOf r name tas v"
    using typeOf_variant[OF _ v] by blast
  have e: "response ?r' c s opType (Inr ss) validateSelections st
           = response r c s opType (Inr ss) validateSelections st"
  proof (cases "rootResolver s opType")
    case None
    then show ?thesis
      by (simp add: response_def Execute_def executeBody_def handlePanic_def AddError_def respond_def)
  next
    case (Some res)
    show ?thesis
    proof (cases "validateSelections ss")
      case (Some errs)
      with \<open>rootResolver s opType = Some res\<close> show ?thesis
        by (simp add: response_def Execute_def executeBody_def)
    next
      case None
      let ?run = "\<lambda>r' st'. execSelections r' c ss None s res '''' (opType = Mutation) st'"
      from exec_settled(1)[OF assms, of c None s res "''''" "opType = Mutation"]
      obtain stat b es where se: "settles r ?run stat b es"
        unfolding settled_def by blast
      from se v assms(3) obtain st2 new2 where
        a2: "?run ?r' st = (stat, b, st2)" "World st2 = World st" "Errs st2 = Errs st @ new2" "mset new2 = es"
        unfolding settles_def by blast
      from se variant_refl[of r] assms(3) obtain st1 new1 where
        a1: "?run r st = (stat, b, st1)" "World st1 = World st" "Errs st1 = Errs st @ new1" "mset new1 = es"
        unfolding settles_def by blast
      have b1: "executeBody r c s opType (Inr ss) validateSelections st = (stat, b, st1)"
        using a1(1) None \<open>rootResolver s opType = Some res\<close> by (simp add: executeBody_def)
      have b2: "executeBody ?r' c s opType (Inr ss) validateSelections st = (stat, b, st2)"
        using a2(1) None \<open>rootResolver s opType = Some res\<close> by (simp add: executeBody_def)
      show ?thesis
      proof (cases stat)
        case Normal
        with b1 b2 a1 a2 assms(3) show ?thesis
          by (simp add: response_def Execute_def respond_def)
      next
        case (Panic pv)
        with b1 b2 a1 a2 assms(3) show ?thesis
          by (simp add: response_def Execute_def respond_def handlePanic_def AddError_def)
      next
        case Hang
        with b1 b2 show ?thesis
          by (simp add: response_def Execute_def)
      qed
    qed
  qed
  from e t show ?thesis by (rule conjI)
qed

text \<open>
  The claim as stated fails: \<^verbatim>\<open>typeOf\<close> returns the name of the first assertion that
  matches in the order the map is ranged over. For a hero on which both the assertion
  named \<^verbatim>\<open>Human\<close> and the one named \<^verbatim>\<open>Droid\<close> report a match, the run that ranges over
  the map in one order answers \<^verbatim>\<open>Human\<close> and the run that ranges over it in the other
  order answers \<^verbatim>\<open>Droid\<close>, with pure resolvers and the same query.
\<close>

theorem typename_follows_map_order_counterexample:
  "pureSels kindQuery
   \<and> map_option fst (Execute exRequest [] exSchema Query (Inr kindQuery) (\<lambda>ss. None) exState)
       = Some (Some (kindText ''Human''), [lostError ''ship'', lostError ''crew''])
   \<and> map_option fst (Execute (exRequest\<lparr>MapOrder := (\<lambda>tas. rev [0..<length tas])\<rparr>) [] exSchema Query
                        (Inr kindQuery) (\<lambda>ss. None) exState)
       = Some (Some (kindText ''Droid''), [lostError ''ship'', lostError ''crew''])
   \<and> kindText ''Human'' \<noteq> kindText ''Droid''"
proof -
  have a: "map_option fst (Execute exRequest [] exSchema Query (Inr kindQuery) (\<lambda>ss. None) exState)
       = Some (Some (kindText ''Human''), [lostError ''ship'', lostError ''crew''])"
    by (simp add: exec_eval ex_defs kind_defs)
  have b: "map_option fst (Execute (exRequest\<lparr>MapOrder := (\<lambda>tas. rev [0..<length tas])\<rparr>) [] exSchema Query
                        (Inr kindQuery) (\<lambda>ss. None) exState)
       = Some (Some (kindText ''Droid''), [lostError ''ship'', lostError ''crew''])"
    by (simp add: exec_eval ex_defs kind_defs)
  have c: "kindText ''Human'' \<noteq> kindText ''Droid''" by (simp add: kindText_def)
  from pureSels_kindQuery a b c show ?thesis by (intro conjI)
qed

text \<open>
  With assertions that exclude one another both runs answer \<^verbatim>\<open>Droid\<close>; the two errors
  come in the order in which the goroutines of the two failing fields ran.
\<close>

theorem pure_runs_agree_witness:
  "pureSels kindQuery \<and> decided exclusive kindQuery \<and> CtxErr (World exState) = None
   \<and> response (backwards exclusive) [] exSchema Query (Inr kindQuery) (\<lambda>ss. None) exState
       = response exclusive [] exSchema Query (Inr kindQuery) (\<lambda>ss. None) exState
   \<and> map_option fst (Execute exclusive [] exSchema Query (Inr kindQuery) (\<lambda>ss. None) exState)
       = Some (Some (kindText ''Droid''), [lostError ''ship'', lostError ''crew''])
   \<and> map_option fst (Execute (backwards exclusive) [] exSchema Query (Inr kindQuery) (\<lambda>ss. None) exState)
       = Some (Some (kindText ''Droid''), [lostError ''crew'', lostError ''ship''])
   \<and> decidedTypename exclusive [(''Human'', 0), (''Droid'', 1)]
   \<and> typeOf (backwards exclusive) ''Character'' [(''Human'', 0), (''Droid'', 1)] (Ref (Host ''droid''))
       = typeOf exclusive ''Character'' [(''Human'', 0), (''Droid'', 1)] (Ref (Host ''droid''))"
proof -
  have d: "decidedTypename exclusive [(''Human'', 0), (''Droid'', 1)]"
    by (simp add: decidedTypename_def matches_def exclusive_def exRequest_def)
  then have dq: "decided exclusive kindQuery" by (simp add: kindQuery_def kindOf_def)
  have n: "CtxErr (World exState) = None" by (simp add: exState_def)
  have a: "map_option fst (Execute exclusive [] exSchema Query (Inr kindQuery) (\<lambda>ss. None) exState)
       = Some (Some (kindText ''Droid''), [lostError ''ship'', lostError ''crew''])"
    by (simp add: exec_eval ex_defs kind_defs)
  have b: "map_option fst (Execute (backwards exclusive) [] exSchema Query (Inr kindQuery) (\<lambda>ss. None) exState)
       = Some (Some (kindText ''Droid''), [lostError ''crew'', lostError ''ship''])"
    by (simp add: exec_eval ex_defs kind_defs)
  from pure_runs_agree_when_typename_is_decided[where ss = kindQuery and r = exclusive and st = exState
          and mo = "\<lambda>tas. rev [0..<length tas]" and sc = "\<lambda>p n. rev [0..<n]" and c = "[]" and s = exSchema
          and opType = Query and validateSelections = "\<lambda>ss. None" and name = "''Character''"
          and v = "Ref (Host ''droid'')", OF pureSels_kindQuery dq n] d
  have t: "response (backwards exclusive) [] exSchema Query (Inr kindQuery) (\<lambda>ss. None) exState
       = response exclusive [] exSchema Query (Inr kindQuery) (\<lambda>ss. None) exState"
    and u: "typeOf (backwards exclusive) ''Character'' [(''Human'', 0), (''Droid'', 1)] (Ref (Host ''droid''))
       = typeOf exclusive ''Character'' [(''Human'', 0), (''Droid'', 1)] (Ref (Host ''droid''))"
    by (simp_all add: backwards_def)
  from pureSels_kindQuery dq n t a b d u show ?thesis by (intro conjI)
qed

section \<open>Null propagation\<close>













end
